theory Spec2Isabelle
  imports Complex_Main "HOL-Library.Word" "HOL-Library.Multiset" "HOL-Library.Char_ord"
    "HOL-Library.List_Lexorder" "HOL-Library.Product_Lexorder"
begin

unbundle bit_operations_syntax

section \<open>Strings\<close>

text \<open>
  A Python \<open>str\<close> is modelled as a \<open>string\<close> in which each \<open>char\<close> stands for one
  code point below 256 (Latin-1), so that \<open>length\<close> counts code points as Python does.
  Strings are compared code point by code point, as Python compares them.
\<close>

text \<open>\<open>str.isspace\<close> on one code point below 256.\<close>

definition isspace :: "char \<Rightarrow> bool" where
  "isspace c \<longleftrightarrow> (of_char c :: nat) \<in> {9, 10, 11, 12, 13, 28, 29, 30, 31, 32, 133, 160}"

definition strip :: "string \<Rightarrow> string" where
  "strip s = rev (dropWhile isspace (rev (dropWhile isspace s)))"

text \<open>\<open>str.lower\<close>: the upper case letters below 256 are A..Z and U+00C0..U+00DE without U+00D7.\<close>

definition lower_char :: "char \<Rightarrow> char" where
  "lower_char c =
     (let n = of_char c :: nat
      in if (65 \<le> n \<and> n \<le> 90) \<or> (192 \<le> n \<and> n \<le> 222 \<and> n \<noteq> 215)
         then char_of (n + 32) else c)"

definition lower :: "string \<Rightarrow> string" where
  "lower s = map lower_char s"

text \<open>\<open>sep.join(parts)\<close>.\<close>

fun join :: "string \<Rightarrow> string list \<Rightarrow> string" where
  "join sep [] = []"
| "join sep [x] = x"
| "join sep (x # y # ys) = x @ sep @ join sep (y # ys)"

text \<open>\<open>str(i)\<close> for an integer: decimal digits, with a leading minus sign if negative.\<close>

fun digits :: "nat \<Rightarrow> string" where
  "digits n = (if n < 10 then [char_of (48 + n)] else digits (n div 10) @ [char_of (48 + n mod 10)])"

declare digits.simps [simp del]

definition str_int :: "int \<Rightarrow> string" where
  "str_int i = (if i < 0 then CHR ''-'' # digits (nat (- i)) else digits (nat i))"

type_synonym byte = "8 word"

text \<open>\<open>s.encode('utf-8')\<close>: one byte below U+0080, two bytes from U+0080 to U+00FF.\<close>

definition encode_utf8 :: "string \<Rightarrow> byte list" where
  "encode_utf8 s =
     concat (map (\<lambda>c. let n = of_char c :: nat
                       in if n < 128 then [of_nat n]
                          else [of_nat (192 + n div 64), of_nat (128 + n mod 64)]) s)"

section \<open>MD5 (RFC 1321), as \<open>hashlib.md5\<close> computes it\<close>

type_synonym u32 = "32 word"

definition md5_s :: "nat list" where
  "md5_s = [7, 12, 17, 22, 7, 12, 17, 22, 7, 12, 17, 22, 7, 12, 17, 22,
            5, 9, 14, 20, 5, 9, 14, 20, 5, 9, 14, 20, 5, 9, 14, 20,
            4, 11, 16, 23, 4, 11, 16, 23, 4, 11, 16, 23, 4, 11, 16, 23,
            6, 10, 15, 21, 6, 10, 15, 21, 6, 10, 15, 21, 6, 10, 15, 21]"

definition md5_K :: "u32 list" where
  "md5_K = [0xd76aa478, 0xe8c7b756, 0x242070db, 0xc1bdceee,
            0xf57c0faf, 0x4787c62a, 0xa8304613, 0xfd469501,
            0x698098d8, 0x8b44f7af, 0xffff5bb1, 0x895cd7be,
            0x6b901122, 0xfd987193, 0xa679438e, 0x49b40821,
            0xf61e2562, 0xc040b340, 0x265e5a51, 0xe9b6c7aa,
            0xd62f105d, 0x02441453, 0xd8a1e681, 0xe7d3fbc8,
            0x21e1cde6, 0xc33707d6, 0xf4d50d87, 0x455a14ed,
            0xa9e3e905, 0xfcefa3f8, 0x676f02d9, 0x8d2a4c8a,
            0xfffa3942, 0x8771f681, 0x6d9d6122, 0xfde5380c,
            0xa4beea44, 0x4bdecfa9, 0xf6bb4b60, 0xbebfbc70,
            0x289b7ec6, 0xeaa127fa, 0xd4ef3085, 0x04881d05,
            0xd9d4d039, 0xe6db99e5, 0x1fa27cf8, 0xc4ac5665,
            0xf4292244, 0x432aff97, 0xab9423a7, 0xfc93a039,
            0x655b59c3, 0x8f0ccc92, 0xffeff47d, 0x85845dd1,
            0x6fa87e4f, 0xfe2ce6e0, 0xa3014314, 0x4e0811a1,
            0xf7537e82, 0xbd3af235, 0x2ad7d2bb, 0xeb86d391]"

definition rotl32 :: "u32 \<Rightarrow> nat \<Rightarrow> u32" where
  "rotl32 x n = push_bit n x OR drop_bit (32 - n) x"

text \<open>The \<open>n\<close> low bytes of a value, least significant first.\<close>

definition le_bytes :: "nat \<Rightarrow> 64 word \<Rightarrow> byte list" where
  "le_bytes n v = map (\<lambda>i. ucast (drop_bit (8 * i) v)) [0..<n]"

definition md5_pad :: "byte list \<Rightarrow> byte list" where
  "md5_pad msg = msg @ [0x80] @ replicate ((119 - length msg mod 64) mod 64) 0
                   @ le_bytes 8 (of_nat (8 * length msg))"

fun le_word :: "byte list \<Rightarrow> u32" where
  "le_word [] = 0"
| "le_word (b # bs) = ucast b OR push_bit 8 (le_word bs)"

text \<open>The first \<open>m\<close> consecutive pieces of length \<open>n\<close>.\<close>

fun chunks :: "nat \<Rightarrow> nat \<Rightarrow> 'a list \<Rightarrow> 'a list list" where
  "chunks 0 n xs = []"
| "chunks (Suc m) n xs = take n xs # chunks m n (drop n xs)"

definition md5_step :: "u32 list \<Rightarrow> u32 \<times> u32 \<times> u32 \<times> u32 \<Rightarrow> nat \<Rightarrow> u32 \<times> u32 \<times> u32 \<times> u32" where
  "md5_step M st i =
     (case st of (A, B, C, D) \<Rightarrow>
        let (F, g) =
              (if i < 16 then ((B AND C) OR (NOT B AND D), i)
               else if i < 32 then ((D AND B) OR (NOT D AND C), (5 * i + 1) mod 16)
               else if i < 48 then (B XOR C XOR D, (3 * i + 5) mod 16)
               else (C XOR (B OR NOT D), (7 * i) mod 16));
            F' = F + A + md5_K ! i + M ! g
        in (D, B + rotl32 F' (md5_s ! i), B, C))"

definition md5_block :: "u32 \<times> u32 \<times> u32 \<times> u32 \<Rightarrow> byte list \<Rightarrow> u32 \<times> u32 \<times> u32 \<times> u32" where
  "md5_block st blk =
     (let M = map le_word (chunks 16 4 blk)
      in case (st, foldl (md5_step M) st [0..<64]) of
           ((a0, b0, c0, d0), (A, B, C, D)) \<Rightarrow> (a0 + A, b0 + B, c0 + C, d0 + D))"

definition md5 :: "byte list \<Rightarrow> byte list" where
  "md5 msg =
     (let p = md5_pad msg
      in case foldl md5_block (0x67452301, 0xefcdab89, 0x98badcfe, 0x10325476)
                (chunks (length p div 64) 64 p) of
           (a, b, c, d) \<Rightarrow> concat (map (\<lambda>w. le_bytes 4 (ucast w)) [a, b, c, d]))"

definition hex_digit :: "nat \<Rightarrow> char" where
  "hex_digit n = ''0123456789abcdef'' ! n"

text \<open>\<open>hexdigest()\<close>: two lower case hexadecimal digits per byte.\<close>

definition hexdigest :: "byte list \<Rightarrow> string" where
  "hexdigest bs = concat (map (\<lambda>b. [hex_digit (unat b div 16), hex_digit (unat b mod 16)]) bs)"

section \<open>Tables\<close>

text \<open>
  A DataFrame is modelled by its column labels, which are strings, and its rows in row
  order, each with one cell per column; as \<open>pd.read_excel\<close> delivers it, its column
  labels are distinct. A cell is a missing value (\<open>NaN\<close> or \<open>None\<close>, for which
  \<open>pd.isna\<close> holds), a Python integer or a Python string; floating point cells are
  not modelled. With such cells the dtype of a row plays no part in the comparison: once
  \<open>fillna('')\<close> has been applied, the dtype of a row of integers is \<open>int64\<close> and
  that of any other row is \<open>object\<close> (pandas before 3.0 infers the dtype of an object
  result of \<open>fillna\<close> anew), so rows with equal values have equal dtypes.
\<close>

datatype cell = NaN | PyInt int | PyStr string

record dataframe =
  columns :: "string list"
  data :: "cell list list"

text \<open>
  The invariant of a DataFrame read from a sheet: the column labels are distinct and
  every row has one cell per column.
\<close>

definition wf_dataframe :: "dataframe \<Rightarrow> bool" where
  "wf_dataframe df \<longleftrightarrow>
     distinct (columns df) \<and> list_all (\<lambda>r. length r = length (columns df)) (data df)"

text \<open>\<open>pd.DataFrame()\<close>: no columns and no rows.\<close>

definition empty_frame :: dataframe where
  "empty_frame = \<lparr>columns = [], data = []\<rparr>"

text \<open>Position of the first occurrence of a label (the length of the list if absent).\<close>

fun get_loc :: "'a list \<Rightarrow> 'a \<Rightarrow> nat" where
  "get_loc [] c = 0"
| "get_loc (x # xs) c = (if x = c then 0 else Suc (get_loc xs c))"

text \<open>\<open>df[c]\<close>: the values of the column labelled \<open>c\<close>, in row order.\<close>

definition getitem :: "dataframe \<Rightarrow> string \<Rightarrow> cell list" where
  "getitem df c = map (\<lambda>r. r ! get_loc (columns df) c) (data df)"

text \<open>The rows as records of (label, value) pairs, as \<open>df.to_dict('records')\<close> lists them.\<close>

definition records :: "dataframe \<Rightarrow> (string \<times> cell) list list" where
  "records df = map (zip (columns df)) (data df)"

section \<open>Row fingerprint\<close>

definition isna :: "cell \<Rightarrow> bool" where
  "isna v \<longleftrightarrow> v = NaN"

text \<open>\<open>str(v)\<close> of a cell.\<close>

fun str :: "cell \<Rightarrow> string" where
  "str (PyInt i) = str_int i"
| "str (PyStr s) = s"
| "str NaN = ''nan''"

text \<open>\<open>row_hash\<close>, applied to the values of a row.\<close>

definition row_hash :: "cell list \<Rightarrow> string" where
  "row_hash series =
     (let vals = map (\<lambda>v. if isna v then '''' else strip (str v)) series;
          s = join ''|'' vals
      in hexdigest (md5 (encode_utf8 s)))"

section \<open>Key column detection\<close>

definition candidates :: "string list" where
  "candidates = [''id'', ''ID'', ''Id'', ''codigo'',
     [CHR ''C'', CHR 0xF3, CHR ''d'', CHR ''i'', CHR ''g'', CHR ''o''],
     ''codigo_municipio'', ''codigo_munic'', ''codigoMunicipio'', ''cod'']"

text \<open>\<open>Series.is_unique\<close>: no value occurs twice; missing values count as equal.\<close>

definition is_unique :: "cell list \<Rightarrow> bool" where
  "is_unique vs = distinct vs"

text \<open>First loop of \<open>find_key_column\<close>: the first label that is a candidate name.\<close>

fun first_candidate :: "string list \<Rightarrow> string option" where
  "first_candidate [] = None"
| "first_candidate (c # cs) = (if c \<in> set candidates then Some c else first_candidate cs)"

text \<open>Second loop: the first label whose column is unique.\<close>

fun first_unique :: "dataframe \<Rightarrow> string list \<Rightarrow> string option" where
  "first_unique df [] = None"
| "first_unique df (c # cs) = (if is_unique (getitem df c) then Some c else first_unique df cs)"

definition find_key_column :: "dataframe \<Rightarrow> string option" where
  "find_key_column df =
     (case first_candidate (columns df) of
        Some c \<Rightarrow> Some c
      | None \<Rightarrow> first_unique df (columns df))"

section \<open>Index operations\<close>

datatype error = KeyError | ValueError

text \<open>
  \<open>df.set_index(key)\<close>: the key column becomes the index, the other columns stay in
  their order.
\<close>

record indexed_frame =
  index_name :: string
  index_values :: "cell list"
  frame :: dataframe

definition delete_at :: "nat \<Rightarrow> 'a list \<Rightarrow> 'a list" where
  "delete_at i xs = take i xs @ drop (Suc i) xs"

definition set_index :: "dataframe \<Rightarrow> string \<Rightarrow> error + indexed_frame" where
  "set_index df key =
     (if key \<notin> set (columns df) then Inl KeyError
      else let i = get_loc (columns df) key
           in Inr \<lparr>index_name = key,
                   index_values = map (\<lambda>r. r ! i) (data df),
                   frame = \<lparr>columns = delete_at i (columns df),
                             data = map (delete_at i) (data df)\<rparr>\<rparr>)"

text \<open>\<open>Index.unique()\<close>: the distinct values in order of first occurrence.\<close>

fun unique_from :: "'a list \<Rightarrow> 'a list \<Rightarrow> 'a list" where
  "unique_from seen [] = []"
| "unique_from seen (x # xs) =
     (if x \<in> set seen then unique_from seen xs else x # unique_from (x # seen) xs)"

definition unique :: "'a list \<Rightarrow> 'a list" where
  "unique xs = unique_from [] xs"

text \<open>
  The order in which pandas sorts index values (\<open>safe_sort\<close>): integers ascending, then
  strings ascending, then missing values.
\<close>

fun sort_rank :: "cell \<Rightarrow> nat \<times> int \<times> string" where
  "sort_rank (PyInt i) = (0, i, [])"
| "sort_rank (PyStr s) = (1, 0, s)"
| "sort_rank NaN = (2, 0, [])"

definition safe_sort :: "cell list \<Rightarrow> cell list" where
  "safe_sort vs = sort_key sort_rank vs"

text \<open>
  \<open>self.difference(other)\<close> with the default \<open>sort=None\<close>: the distinct values of
  \<open>self\<close> that are not in \<open>other\<close>, sorted; pandas leaves the result unsorted when
  \<open>other\<close> is empty (pandas 2).
\<close>

definition difference :: "cell list \<Rightarrow> cell list \<Rightarrow> cell list" where
  "difference self other =
     (if other = [] then unique self
      else safe_sort (unique (filter (\<lambda>k. k \<notin> set other) self)))"

text \<open>
  \<open>self.intersection(other)\<close> with the default \<open>sort=False\<close>: the distinct values of
  \<open>self\<close> that are in \<open>other\<close>, in the order of \<open>self\<close>.
\<close>

definition intersection :: "cell list \<Rightarrow> cell list \<Rightarrow> cell list" where
  "intersection self other = filter (\<lambda>k. k \<in> set other) (unique self)"

text \<open>The (label, row) pairs of an indexed frame whose label is \<open>k\<close>, in row order.\<close>

definition labelled_rows :: "indexed_frame \<Rightarrow> (cell \<times> cell list) list" where
  "labelled_rows idx = zip (index_values idx) (data (frame idx))"

definition rows_at :: "indexed_frame \<Rightarrow> cell \<Rightarrow> (cell \<times> cell list) list" where
  "rows_at idx k = filter (\<lambda>(k', r). k' = k) (labelled_rows idx)"

text \<open>
  \<open>idx.loc[keys]\<close> with a list of labels: for each label in turn all rows that carry it;
  \<open>KeyError\<close> if a label is not in the index.
\<close>

definition loc_list :: "indexed_frame \<Rightarrow> cell list \<Rightarrow> error + indexed_frame" where
  "loc_list idx keys =
     (if \<exists>k\<in>set keys. k \<notin> set (index_values idx) then Inl KeyError
      else let sel = concat (map (rows_at idx) keys)
           in Inr (idx\<lparr>index_values := map fst sel,
                       frame := (frame idx)\<lparr>data := map snd sel\<rparr>\<rparr>))"

text \<open>
  \<open>idx.reset_index()\<close>: the index becomes the first column; \<open>ValueError\<close> if a column
  of that name exists already.
\<close>

definition reset_index :: "indexed_frame \<Rightarrow> error + dataframe" where
  "reset_index idx =
     (if index_name idx \<in> set (columns (frame idx)) then Inl ValueError
      else Inr \<lparr>columns = index_name idx # columns (frame idx),
                 data = map (\<lambda>(k, r). k # r) (labelled_rows idx)\<rparr>)"

text \<open>
  \<open>idx.loc[k]\<close> with one label: a Series (column labels and values) if exactly one
  row carries the label, a DataFrame of all such rows if several do, \<open>KeyError\<close> if none.
\<close>

datatype loc_result = Series "string list" "cell list" | Frame indexed_frame

definition loc :: "indexed_frame \<Rightarrow> cell \<Rightarrow> error + loc_result" where
  "loc idx k =
     (case rows_at idx k of
        [] \<Rightarrow> Inl KeyError
      | [(k', r)] \<Rightarrow> Inr (Series (columns (frame idx)) r)
      | sel \<Rightarrow> Inr (Frame (idx\<lparr>index_values := map fst sel,
                                frame := (frame idx)\<lparr>data := map snd sel\<rparr>\<rparr>)))"

text \<open>\<open>fillna('')\<close>: missing values become the empty string.\<close>

definition fill_cell :: "cell \<Rightarrow> cell" where
  "fill_cell v = (if isna v then PyStr '''' else v)"

fun fillna :: "loc_result \<Rightarrow> loc_result" where
  "fillna (Series labels vs) = Series labels (map fill_cell vs)"
| "fillna (Frame idx) =
     Frame (idx\<lparr>frame := (frame idx)\<lparr>data := map (map fill_cell) (data (frame idx))\<rparr>\<rparr>)"

text \<open>
  \<open>x.equals(y)\<close>: same kind of object, same labels on every axis, in the same order,
  and same values.
\<close>

fun equals :: "loc_result \<Rightarrow> loc_result \<Rightarrow> bool" where
  "equals (Series l1 v1) (Series l2 v2) \<longleftrightarrow> l1 = l2 \<and> v1 = v2"
| "equals (Frame x) (Frame y) \<longleftrightarrow>
     index_values x = index_values y \<and> columns (frame x) = columns (frame y) \<and>
     data (frame x) = data (frame y)"
| "equals x y \<longleftrightarrow> False"

section \<open>Table comparison\<close>

text \<open>The loop of \<open>compare_dataframes\<close> over the common keys.\<close>

fun modified_loop ::
  "indexed_frame \<Rightarrow> indexed_frame \<Rightarrow> cell list \<Rightarrow> cell list \<Rightarrow> error + cell list" where
  "modified_loop a_idx b_idx [] modified_keys = Inr modified_keys"
| "modified_loop a_idx b_idx (k # ks) modified_keys =
     (case loc a_idx k of
        Inl e \<Rightarrow> Inl e
      | Inr row_a \<Rightarrow>
          (case loc b_idx k of
             Inl e \<Rightarrow> Inl e
           | Inr row_b \<Rightarrow>
               if \<not> equals (fillna row_a) (fillna row_b)
               then modified_loop a_idx b_idx ks (modified_keys @ [k])
               else modified_loop a_idx b_idx ks modified_keys))"

text \<open>\<open>b_idx.loc[keys].reset_index() if len(keys) > 0 else pd.DataFrame()\<close>.\<close>

definition select_rows :: "indexed_frame \<Rightarrow> cell list \<Rightarrow> error + dataframe" where
  "select_rows b_idx keys =
     (if length keys > 0
      then (case loc_list b_idx keys of Inl e \<Rightarrow> Inl e | Inr sel \<Rightarrow> reset_index sel)
      else Inr empty_frame)"

text \<open>
  \<open>df[mask]\<close> with a list of booleans keeps the rows whose flag is set; an empty list
  is read by pandas as an empty list of column labels and selects no column.
\<close>

definition getitem_mask :: "dataframe \<Rightarrow> bool list \<Rightarrow> dataframe" where
  "getitem_mask df flags =
     (if flags = [] then \<lparr>columns = [], data = map (\<lambda>r. []) (data df)\<rparr>
      else df\<lparr>data := map snd (filter fst (zip flags (data df)))\<rparr>)"

text \<open>\<open>df.apply(row_hash, axis=1)\<close>: one fingerprint per row.\<close>

definition apply_row_hash :: "dataframe \<Rightarrow> string list" where
  "apply_row_hash df = map row_hash (data df)"

definition compare_dataframes :: "dataframe \<Rightarrow> dataframe \<Rightarrow> error + dataframe \<times> dataframe" where
  "compare_dataframes df_a df_b =
     (let key = find_key_column df_a
      in if key \<noteq> None \<and> the key \<noteq> '''' \<and> the key \<in> set (columns df_b)
         then
           (case set_index df_a (the key) of
              Inl e \<Rightarrow> Inl e
            | Inr a_idx \<Rightarrow>
           (case set_index df_b (the key) of
              Inl e \<Rightarrow> Inl e
            | Inr b_idx \<Rightarrow>
           (let added_keys = difference (index_values b_idx) (index_values a_idx);
                common = intersection (index_values a_idx) (index_values b_idx)
            in case select_rows b_idx added_keys of
                 Inl e \<Rightarrow> Inl e
               | Inr added \<Rightarrow>
              (case modified_loop a_idx b_idx common [] of
                 Inl e \<Rightarrow> Inl e
               | Inr modified_keys \<Rightarrow>
              (case select_rows b_idx modified_keys of
                 Inl e \<Rightarrow> Inl e
               | Inr modified \<Rightarrow> Inr (added, modified))))))
         else
           (let ha = apply_row_hash df_a;
                hb = apply_row_hash df_b;
                added_hashes = set hb - set ha;
                added = getitem_mask df_b (map (\<lambda>h. h \<in> added_hashes) hb);
                modified = empty_frame
            in Inr (added, modified)))"

section \<open>Similarity of names (\<open>difflib.SequenceMatcher\<close>)\<close>

text \<open>
  A \<open>SequenceMatcher(None, a, b)\<close> has no junk; with its default \<open>autojunk\<close> it
  treats an element of \<open>b\<close> as popular when \<open>b\<close> has at least 200 elements and the
  element occurs more than \<open>len(b) // 100 + 1\<close> times. \<open>b2j\<close> lists the positions of
  an element in \<open>b\<close>, nothing for a popular one.
\<close>

definition popular :: "string \<Rightarrow> char \<Rightarrow> bool" where
  "popular b elt \<longleftrightarrow> length b \<ge> 200 \<and> count_list b elt > length b div 100 + 1"

definition b2j :: "string \<Rightarrow> char \<Rightarrow> nat list" where
  "b2j b elt = (if popular b elt then [] else filter (\<lambda>j. b ! j = elt) [0..<length b])"

type_synonym match = "nat \<times> nat \<times> nat"

text \<open>
  Inner loop of \<open>find_longest_match\<close> for one \<open>i\<close>, over the positions \<open>j\<close> with
  \<open>a[i] == b[j]\<close>: \<open>j2len\<close> gives the length of the match ending at \<open>i-1, j-1\<close>
  (0 when there is none), \<open>newj2len\<close> the one ending at \<open>i, j\<close>.
\<close>

fun flm_inner ::
  "nat \<Rightarrow> nat \<Rightarrow> nat \<Rightarrow> (nat \<Rightarrow> nat) \<Rightarrow> nat list \<Rightarrow> (nat \<Rightarrow> nat) \<times> match \<Rightarrow> (nat \<Rightarrow> nat) \<times> match" where
  "flm_inner i blo bhi j2len [] st = st"
| "flm_inner i blo bhi j2len (j # js) (newj2len, (besti, bestj, bestsize)) =
     (if j < blo then flm_inner i blo bhi j2len js (newj2len, (besti, bestj, bestsize))
      else if j \<ge> bhi then (newj2len, (besti, bestj, bestsize))
      else let k = (if j = 0 then 0 else j2len (j - 1)) + 1
           in flm_inner i blo bhi j2len js
                (newj2len(j := k),
                 if k > bestsize then (i + 1 - k, j + 1 - k, k) else (besti, bestj, bestsize)))"

text \<open>Outer loop: \<open>for i in range(alo, ahi)\<close>.\<close>

fun flm_outer ::
  "string \<Rightarrow> string \<Rightarrow> nat \<Rightarrow> nat \<Rightarrow> nat list \<Rightarrow> (nat \<Rightarrow> nat) \<times> match \<Rightarrow> (nat \<Rightarrow> nat) \<times> match" where
  "flm_outer a b blo bhi [] st = st"
| "flm_outer a b blo bhi (i # is) (j2len, best) =
     flm_outer a b blo bhi is (flm_inner i blo bhi j2len (b2j b (a ! i)) (\<lambda>j. 0, best))"

text \<open>The loops that extend the match to the left and to the right.\<close>

fun extend_left :: "string \<Rightarrow> string \<Rightarrow> nat \<Rightarrow> nat \<Rightarrow> match \<Rightarrow> match" where
  "extend_left a b alo blo (besti, bestj, bestsize) =
     (if besti > alo \<and> bestj > blo \<and> a ! (besti - 1) = b ! (bestj - 1)
      then extend_left a b alo blo (besti - 1, bestj - 1, bestsize + 1)
      else (besti, bestj, bestsize))"

function extend_right :: "string \<Rightarrow> string \<Rightarrow> nat \<Rightarrow> nat \<Rightarrow> match \<Rightarrow> match" where
  "extend_right a b ahi bhi (besti, bestj, bestsize) =
     (if besti + bestsize < ahi \<and> bestj + bestsize < bhi \<and>
         a ! (besti + bestsize) = b ! (bestj + bestsize)
      then extend_right a b ahi bhi (besti, bestj, bestsize + 1)
      else (besti, bestj, bestsize))"
  by pat_completeness auto
termination
  by (relation "measure (\<lambda>(a, b, ahi, bhi, besti, bestj, bestsize). ahi - (besti + bestsize))") auto

declare extend_left.simps [simp del] extend_right.simps [simp del]

text \<open>
  \<open>find_longest_match(alo, ahi, blo, bhi)\<close>. The two further loops of the source extend
  the match over junk elements only, and there is no junk.
\<close>

definition find_longest_match :: "string \<Rightarrow> string \<Rightarrow> nat \<Rightarrow> nat \<Rightarrow> nat \<Rightarrow> nat \<Rightarrow> match" where
  "find_longest_match a b alo ahi blo bhi =
     extend_right a b ahi bhi
       (extend_left a b alo blo
          (snd (flm_outer a b blo bhi [alo..<ahi] (\<lambda>j. 0, (alo, blo, 0)))))"

text \<open>
  The number of matched elements that \<open>get_matching_blocks\<close> collects: the longest match
  of the range, then the matches of the ranges to its left and to its right.
\<close>

function matching_size :: "string \<Rightarrow> string \<Rightarrow> nat \<Rightarrow> nat \<Rightarrow> nat \<Rightarrow> nat \<Rightarrow> nat" where
  "matching_size a b alo ahi blo bhi =
     (case find_longest_match a b alo ahi blo bhi of (i, j, k) \<Rightarrow>
        if k \<noteq> 0 then
          k + (if alo < i \<and> blo < j then matching_size a b alo i blo j else 0)
            + (if i + k < ahi \<and> j + k < bhi then matching_size a b (i + k) ahi (j + k) bhi else 0)
        else 0)"
  by pat_completeness auto

text \<open>
  The recursion terminates because \<open>find_longest_match\<close> returns a match inside the
  range it was given. The loops keep the following invariants: \<open>j2len\<close> describes
  matches ending in the previous row, and the best match so far is empty or a real match
  inside the range.
\<close>

definition j2len_ok :: "string \<Rightarrow> string \<Rightarrow> nat \<Rightarrow> nat \<Rightarrow> nat \<Rightarrow> nat \<Rightarrow> (nat \<Rightarrow> nat) \<Rightarrow> bool" where
  "j2len_ok a b alo blo bhi n j2len \<longleftrightarrow>
     (\<forall>j. j2len j > 0 \<longrightarrow>
        blo + j2len j \<le> j + 1 \<and> j < bhi \<and> alo + j2len j \<le> n \<and>
        (\<forall>t<j2len j. a ! (n - 1 - t) = b ! (j - t)))"

definition best_ok :: "string \<Rightarrow> string \<Rightarrow> nat \<Rightarrow> nat \<Rightarrow> nat \<Rightarrow> nat \<Rightarrow> match \<Rightarrow> bool" where
  "best_ok a b alo ahi blo bhi m \<longleftrightarrow>
     (case m of (i, j, k) \<Rightarrow>
        (k = 0 \<and> i = alo \<and> j = blo) \<or>
        (k > 0 \<and> alo \<le> i \<and> i + k \<le> ahi \<and> blo \<le> j \<and> j + k \<le> bhi \<and>
         (\<forall>t<k. a ! (i + t) = b ! (j + t))))"

lemma flm_inner_ok:
  assumes "j2len_ok a b alo blo bhi i j2len" "i < ahi" "alo \<le> i"
    and "\<forall>j\<in>set js. b ! j = a ! i"
    and "j2len_ok a b alo blo bhi (Suc i) new" "best_ok a b alo ahi blo bhi best"
  shows "j2len_ok a b alo blo bhi (Suc i) (fst (flm_inner i blo bhi j2len js (new, best))) \<and>
         best_ok a b alo ahi blo bhi (snd (flm_inner i blo bhi j2len js (new, best)))"
  using assms(4-6)
proof (induction js arbitrary: new best)
  case Nil
  then show ?case by simp
next
  case (Cons j js)
  obtain bi bj bs where best: "best = (bi, bj, bs)" by (cases best)
  show ?case
  proof (cases "j < blo")
    case True
    then show ?thesis using Cons best by simp
  next
    case lo: False
    show ?thesis
    proof (cases "j \<ge> bhi")
      case True
      then show ?thesis using Cons.prems lo best by simp
    next
      case hi: False
      define p where "p = (if j = 0 then 0 else j2len (j - 1))"
      define k where "k = p + 1"
      have bij: "b ! j = a ! i" using Cons.prems by simp
      have p0: "p > 0 \<Longrightarrow> j > 0 \<and> blo + p \<le> j \<and> alo + p \<le> i \<and>
                 (\<forall>t<p. a ! (i - 1 - t) = b ! (j - 1 - t))"
        using assms(1) unfolding p_def j2len_ok_def
        by (auto split: if_splits dest!: spec[of _ "j - 1"])
      have kb: "blo + k \<le> j + 1" "alo + k \<le> Suc i"
        using p0 lo assms(3) unfolding k_def by (cases "p > 0"; simp)+
      have km: "\<forall>t<k. a ! (i - t) = b ! (j - t)"
      proof (intro allI impI)
        fix t assume "t < k"
        show "a ! (i - t) = b ! (j - t)"
        proof (cases t)
          case 0
          then show ?thesis using bij by simp
        next
          case (Suc u)
          with \<open>t < k\<close> have "u < p" by (simp add: k_def)
          then have "a ! (i - 1 - u) = b ! (j - 1 - u)" using p0 by auto
          then show ?thesis using Suc by simp
        qed
      qed
      have new': "j2len_ok a b alo blo bhi (Suc i) (new(j := k))"
        using Cons.prems(2) kb km hi unfolding j2len_ok_def by auto
      have best': "best_ok a b alo ahi blo bhi
                     (if k > bs then (i + 1 - k, j + 1 - k, k) else (bi, bj, bs))"
      proof (cases "k > bs")
        case False
        then show ?thesis using Cons.prems(3) best by simp
      next
        case True
        have "k > 0" by (simp add: k_def)
        moreover have "\<forall>t<k. a ! (i + 1 - k + t) = b ! (j + 1 - k + t)"
        proof (intro allI impI)
          fix t assume t: "t < k"
          then have "k - 1 - t < k" by simp
          with km have m: "a ! (i - (k - 1 - t)) = b ! (j - (k - 1 - t))" by blast
          have e1: "i - (k - 1 - t) = i + 1 - k + t" using t kb by arith
          have e2: "j - (k - 1 - t) = j + 1 - k + t" using t kb by arith
          show "a ! (i + 1 - k + t) = b ! (j + 1 - k + t)" using m unfolding e1 e2 .
        qed
        moreover have "alo \<le> i + 1 - k" "blo \<le> j + 1 - k" "i + 1 - k + k \<le> ahi"
          "j + 1 - k + k \<le> bhi"
          using kb hi assms(2) by arith+
        ultimately show ?thesis
          using True unfolding best_ok_def by simp
      qed
      have eq: "flm_inner i blo bhi j2len (j # js) (new, best) =
            flm_inner i blo bhi j2len js
              (new(j := k), if k > bs then (i + 1 - k, j + 1 - k, k) else (bi, bj, bs))"
        using lo hi best by (simp add: k_def p_def Let_def)
      have js': "\<forall>j\<in>set js. b ! j = a ! i" using Cons.prems by simp
      show ?thesis unfolding eq by (rule Cons.IH[OF js' new' best'])
    qed
  qed
qed


lemma b2j_match: "j \<in> set (b2j b elt) \<Longrightarrow> b ! j = elt"
  by (auto simp: b2j_def split: if_splits)

lemma j2len_ok_zero: "j2len_ok a b alo blo bhi n (\<lambda>j. 0)"
  by (simp add: j2len_ok_def)

lemma flm_outer_ok:
  assumes "j2len_ok a b alo blo bhi i j2len" "best_ok a b alo ahi blo bhi best" "alo \<le> i"
  shows "best_ok a b alo ahi blo bhi (snd (flm_outer a b blo bhi [i..<ahi] (j2len, best)))"
  using assms
proof (induction "ahi - i" arbitrary: i j2len best)
  case 0
  then show ?case by simp
next
  case (Suc n)
  then have lt: "i < ahi" by simp
  let ?st = "flm_inner i blo bhi j2len (b2j b (a ! i)) (\<lambda>j. 0, best)"
  have step: "j2len_ok a b alo blo bhi (Suc i) (fst ?st) \<and> best_ok a b alo ahi blo bhi (snd ?st)"
    using Suc.prems(1) lt Suc.prems(3) _ j2len_ok_zero Suc.prems(2)
    by (rule flm_inner_ok) (simp add: b2j_match)
  have "[i..<ahi] = i # [Suc i..<ahi]" using lt by (simp add: upt_conv_Cons)
  then have "flm_outer a b blo bhi [i..<ahi] (j2len, best) =
             flm_outer a b blo bhi [Suc i..<ahi] (fst ?st, snd ?st)"
    by simp
  moreover have "best_ok a b alo ahi blo bhi
                   (snd (flm_outer a b blo bhi [Suc i..<ahi] (fst ?st, snd ?st)))"
    using Suc.hyps(2) step Suc.prems(3) by (intro Suc.hyps(1)) auto
  ultimately show ?case by simp
qed

lemma extend_left_stop:
  "\<not> (besti > alo \<and> bestj > blo \<and> a ! (besti - 1) = b ! (bestj - 1)) \<Longrightarrow>
   extend_left a b alo blo (besti, bestj, bestsize) = (besti, bestj, bestsize)"
  by (subst extend_left.simps) (rule if_not_P)

lemma extend_left_step:
  "besti > alo \<and> bestj > blo \<and> a ! (besti - 1) = b ! (bestj - 1) \<Longrightarrow>
   extend_left a b alo blo (besti, bestj, bestsize) =
   extend_left a b alo blo (besti - 1, bestj - 1, bestsize + 1)"
  by (subst extend_left.simps) (rule if_P)

lemma extend_right_stop:
  "\<not> (besti + bestsize < ahi \<and> bestj + bestsize < bhi \<and>
      a ! (besti + bestsize) = b ! (bestj + bestsize)) \<Longrightarrow>
   extend_right a b ahi bhi (besti, bestj, bestsize) = (besti, bestj, bestsize)"
  by (subst extend_right.simps) (rule if_not_P)

lemma extend_right_step:
  "besti + bestsize < ahi \<and> bestj + bestsize < bhi \<and>
      a ! (besti + bestsize) = b ! (bestj + bestsize) \<Longrightarrow>
   extend_right a b ahi bhi (besti, bestj, bestsize) =
   extend_right a b ahi bhi (besti, bestj, bestsize + 1)"
  by (subst extend_right.simps) (rule if_P)

lemma extend_left_ok:
  "best_ok a b alo ahi blo bhi m \<Longrightarrow> best_ok a b alo ahi blo bhi (extend_left a b alo blo m)"
proof (induction a b alo blo m rule: extend_left.induct)
  case (1 a b alo blo besti bestj bestsize)
  show ?case
  proof (cases "besti > alo \<and> bestj > blo \<and> a ! (besti - 1) = b ! (bestj - 1)")
    case False
    show ?thesis using "1.prems" by (simp only: extend_left_stop[OF False])
  next
    case True
    from True "1.prems" have k: "bestsize > 0"
      by (auto simp: best_ok_def)
    from True have t1: "alo < besti" "blo < bestj" and t2: "a ! (besti - 1) = b ! (bestj - 1)"
      by simp_all
    have "best_ok a b alo ahi blo bhi (besti - 1, bestj - 1, bestsize + 1)"
      unfolding best_ok_def
    proof (clarsimp, intro conjI allI impI)
      show "alo \<le> besti - Suc 0" "blo \<le> bestj - Suc 0" using t1 by arith+
      have "besti + bestsize \<le> ahi" "bestj + bestsize \<le> bhi"
        using "1.prems" k by (auto simp: best_ok_def)
      then show "Suc (besti - Suc 0 + bestsize) \<le> ahi" "Suc (bestj - Suc 0 + bestsize) \<le> bhi"
        using t1 by arith+
      fix t assume "t < Suc bestsize"
      show "a ! (besti - Suc 0 + t) = b ! (bestj - Suc 0 + t)"
      proof (cases t)
        case 0
        then show ?thesis using t2 by simp
      next
        case (Suc u)
        with \<open>t < Suc bestsize\<close> have m: "a ! (besti + u) = b ! (bestj + u)"
          using "1.prems" k by (auto simp: best_ok_def)
        have e1: "besti - Suc 0 + t = besti + u" using t1 Suc by arith
        have e2: "bestj - Suc 0 + t = bestj + u" using t1 Suc by arith
        show ?thesis using m unfolding e1 e2 .
      qed
    qed
    then have "best_ok a b alo ahi blo bhi (extend_left a b alo blo (besti - 1, bestj - 1, bestsize + 1))"
      using True by (intro "1.IH") simp_all
    then show ?thesis by (simp only: extend_left_step[OF True])
  qed
qed

lemma extend_right_ok:
  "best_ok a b alo ahi blo bhi m \<Longrightarrow> best_ok a b alo ahi blo bhi (extend_right a b ahi bhi m)"
proof (induction a b ahi bhi m rule: extend_right.induct)
  case (1 a b ahi bhi besti bestj bestsize)
  show ?case
  proof (cases "besti + bestsize < ahi \<and> bestj + bestsize < bhi \<and>
                a ! (besti + bestsize) = b ! (bestj + bestsize)")
    case False
    show ?thesis using "1.prems" by (simp only: extend_right_stop[OF False])
  next
    case True
    have "best_ok a b alo ahi blo bhi (besti, bestj, bestsize + 1)"
      using True "1.prems" unfolding best_ok_def
      by (auto simp: less_Suc_eq)
    then have "best_ok a b alo ahi blo bhi (extend_right a b ahi bhi (besti, bestj, bestsize + 1))"
      using True by (intro "1.IH") simp_all
    then show ?thesis by (simp only: extend_right_step[OF True])
  qed
qed

lemma find_longest_match_ok:
  "best_ok a b alo ahi blo bhi (find_longest_match a b alo ahi blo bhi)"
  unfolding find_longest_match_def
  by (intro extend_right_ok extend_left_ok flm_outer_ok j2len_ok_zero)
     (simp_all add: best_ok_def)

lemma find_longest_match_sound:
  assumes "find_longest_match a b alo ahi blo bhi = (i, j, k)" "k \<noteq> 0"
  shows "alo \<le> i" "i + k \<le> ahi" "blo \<le> j" "j + k \<le> bhi" "\<forall>t<k. a ! (i + t) = b ! (j + t)"
  using find_longest_match_ok[of a b alo ahi blo bhi] assms by (auto simp: best_ok_def)

lemma find_longest_match_bounds:
  "(i, j, k) = find_longest_match a b alo ahi blo bhi \<Longrightarrow> k \<noteq> 0 \<Longrightarrow> alo \<le> i \<and> i + k \<le> ahi"
  using find_longest_match_sound[of a b alo ahi blo bhi i j k] by simp

termination matching_size
  by (relation "measure (\<lambda>(a, b, alo, ahi, blo, bhi). ahi - alo)")
     (auto dest: find_longest_match_bounds)

declare matching_size.simps [simp del]

definition calculate_ratio :: "nat \<Rightarrow> nat \<Rightarrow> rat" where
  "calculate_ratio matches len = (if len \<noteq> 0 then 2 * of_nat matches / of_nat len else 1)"

text \<open>
  \<open>SequenceMatcher(None, a, b).ratio()\<close>. The floating point quotient is modelled by the
  exact rational number.
\<close>

definition ratio :: "string \<Rightarrow> string \<Rightarrow> rat" where
  "ratio a b = calculate_ratio (matching_size a b 0 (length a) 0 (length b)) (length a + length b)"

text \<open>
  \<open>quick_ratio()\<close>: the loop over \<open>a\<close> counts an element as long as \<open>b\<close> has
  occurrences of it left; \<open>avail\<close> holds what is left of the elements seen so far.
\<close>

fun quick_loop :: "string \<Rightarrow> (char \<rightharpoonup> int) \<Rightarrow> string \<Rightarrow> nat \<Rightarrow> nat" where
  "quick_loop b avail [] matches = matches"
| "quick_loop b avail (elt # rest) matches =
     (let numb = (case avail elt of Some n \<Rightarrow> n | None \<Rightarrow> int (count_list b elt))
      in quick_loop b (avail(elt \<mapsto> numb - 1)) rest (if numb > 0 then matches + 1 else matches))"

definition quick_ratio :: "string \<Rightarrow> string \<Rightarrow> rat" where
  "quick_ratio a b = calculate_ratio (quick_loop b Map.empty a 0) (length a + length b)"

definition real_quick_ratio :: "string \<Rightarrow> string \<Rightarrow> rat" where
  "real_quick_ratio a b = calculate_ratio (min (length a) (length b)) (length a + length b)"

text \<open>Python's \<open>max\<close> of a non-empty sequence: the first of the greatest items.\<close>

definition py_max :: "'a::linorder \<Rightarrow> 'a list \<Rightarrow> 'a" where
  "py_max x xs = foldl (\<lambda>m y. if m < y then y else m) x xs"

text \<open>
  \<open>difflib.get_close_matches(word, possibilities, n=1, cutoff)\<close>: the matcher has
  \<open>word\<close> as its second sequence and each possibility in turn as its first; the scored
  possibilities are compared as (score, name) pairs.
\<close>

definition get_close_matches :: "string \<Rightarrow> string list \<Rightarrow> rat \<Rightarrow> error + string list" where
  "get_close_matches word possibilities cutoff =
     (if \<not> (0 \<le> cutoff \<and> cutoff \<le> 1) then Inl ValueError
      else let result = map (\<lambda>x. (ratio x word, x))
                          (filter (\<lambda>x. real_quick_ratio x word \<ge> cutoff \<and>
                                       quick_ratio x word \<ge> cutoff \<and>
                                       ratio x word \<ge> cutoff) possibilities)
           in case result of
                [] \<Rightarrow> Inr []
              | r # rs \<Rightarrow> Inr [snd (py_max r rs)])"

section \<open>Pairing of files\<close>

text \<open>
  A path is given by its folder, its stem (the file name without the last suffix) and
  that suffix, as \<open>pathlib\<close> splits it.
\<close>

record path =
  folder :: string
  stem :: string
  extension :: string

text \<open>
  A Python \<open>dict\<close> keeps its keys in the order of first insertion; storing under an
  existing key replaces the value and keeps the position.
\<close>

fun dict_set :: "('k \<times> 'v) list \<Rightarrow> 'k \<Rightarrow> 'v \<Rightarrow> ('k \<times> 'v) list" where
  "dict_set [] k v = [(k, v)]"
| "dict_set ((k', v') # d) k v = (if k' = k then (k, v) # d else (k', v') # dict_set d k v)"

text \<open>\<open>{f.stem: f for f in files_b}\<close>.\<close>

definition stems_of :: "path list \<Rightarrow> (string \<times> path) list" where
  "stems_of files_b = foldl (\<lambda>d f. dict_set d (stem f) f) [] files_b"

text \<open>The inner \<open>for\<close> loop: the first entry whose stem equals \<open>a_stem\<close> up to case.\<close>

fun exact_match :: "string \<Rightarrow> (string \<times> path) list \<Rightarrow> path option" where
  "exact_match a_stem [] = None"
| "exact_match a_stem ((bstem, fb) # rest) =
     (if lower a_stem = lower bstem then Some fb else exact_match a_stem rest)"

type_synonym pair = "path \<times> path \<times> rat"

text \<open>
  The body of the outer loop for one file of A: the pairs it appends (at most one), or
  the exception it raises.
\<close>

definition pair_step :: "(string \<times> path) list \<Rightarrow> rat \<Rightarrow> path \<Rightarrow> error + pair list" where
  "pair_step stems_b threshold fa =
     (let a_stem = stem fa
      in case exact_match a_stem stems_b of
           Some fb \<Rightarrow> Inr [(fa, fb, 1)]
         | None \<Rightarrow>
             (let candidates = map fst stems_b
              in case get_close_matches a_stem candidates threshold of
                   Inl e \<Rightarrow> Inl e
                 | Inr match \<Rightarrow>
                     if match \<noteq> [] then
                       (case map_of stems_b (hd match) of
                          None \<Rightarrow> Inl KeyError
                        | Some fb \<Rightarrow> Inr [(fa, fb, ratio a_stem (hd match))])
                     else Inr []))"

fun pair_loop :: "(string \<times> path) list \<Rightarrow> rat \<Rightarrow> path list \<Rightarrow> pair list \<Rightarrow> error + pair list" where
  "pair_loop stems_b threshold [] pairs = Inr pairs"
| "pair_loop stems_b threshold (fa # files_a) pairs =
     (case pair_step stems_b threshold fa of
        Inl e \<Rightarrow> Inl e
      | Inr new \<Rightarrow> pair_loop stems_b threshold files_a (pairs @ new))"

definition pair_files :: "path list \<Rightarrow> path list \<Rightarrow> rat \<Rightarrow> error + pair list" where
  "pair_files files_a files_b threshold = pair_loop (stems_of files_b) threshold files_a []"

section \<open>The fingerprint as the specification words it\<close>

text \<open>
  Missing values become the empty string, every other value its string representation
  without leading and trailing whitespace; the results are joined with a bar; the digest
  is the hexadecimal MD5 digest of the UTF-8 encoding.
\<close>

definition normalized :: "cell \<Rightarrow> string" where
  "normalized v = (case v of NaN \<Rightarrow> '''' | PyInt i \<Rightarrow> strip (str_int i) | PyStr s \<Rightarrow> strip s)"

definition joined :: "cell list \<Rightarrow> string" where
  "joined row = join ''|'' (map normalized row)"

definition fingerprint_spec :: "cell list \<Rightarrow> string" where
  "fingerprint_spec row = hexdigest (md5 (encode_utf8 (joined row)))"


section \<open>Notions used to state the properties of the comparison\<close>

text \<open>A row, or the list of labels, with the entry at position \<open>i\<close> moved to the front.\<close>

definition move_key_first :: "nat \<Rightarrow> 'a list \<Rightarrow> 'a list" where
  "move_key_first i xs = xs ! i # delete_at i xs"

text \<open>The test of the loop for one common key: the two lookups succeed and differ.\<close>

definition row_changed :: "indexed_frame \<Rightarrow> indexed_frame \<Rightarrow> cell \<Rightarrow> bool" where
  "row_changed a_idx b_idx k \<longleftrightarrow>
     (case (loc a_idx k, loc b_idx k) of
        (Inr row_a, Inr row_b) \<Rightarrow> \<not> equals (fillna row_a) (fillna row_b)
      | _ \<Rightarrow> False)"

text \<open>An indexed frame has one label per row.\<close>

definition aligned :: "indexed_frame \<Rightarrow> bool" where
  "aligned idx \<longleftrightarrow> length (index_values idx) = length (data (frame idx))"

text \<open>The column labels of the result of a lookup.\<close>

fun labels_of :: "loc_result \<Rightarrow> string list" where
  "labels_of (Series labels vs) = labels"
| "labels_of (Frame x) = columns (frame x)"

text \<open>For each key in turn, the rows that carry it at position \<open>i\<close>, in row order.\<close>

definition rows_with_keys :: "nat \<Rightarrow> cell list list \<Rightarrow> cell list \<Rightarrow> cell list list" where
  "rows_with_keys i rows keys = concat (map (\<lambda>k. filter (\<lambda>r. r ! i = k) rows) keys)"

text \<open>The frame \<open>b_idx.loc[keys].reset_index()\<close> in terms of the rows of B.\<close>

definition selected :: "dataframe \<Rightarrow> string \<Rightarrow> cell list \<Rightarrow> dataframe" where
  "selected df key keys =
     (let i = get_loc (columns df) key
      in if keys = [] then empty_frame
         else \<lparr>columns = move_key_first i (columns df),
                data = map (move_key_first i) (rows_with_keys i (data df) keys)\<rparr>)"

text \<open>The part \<open>xs[lo:hi]\<close> of a sequence.\<close>

definition slice :: "'a list \<Rightarrow> nat \<Rightarrow> nat \<Rightarrow> 'a list" where
  "slice xs lo hi = take (hi - lo) (drop lo xs)"

section \<open>Key column detection: properties\<close>

lemma first_candidate_Some:
  "i < length cs \<Longrightarrow> cs ! i \<in> set candidates \<Longrightarrow> \<forall>j<i. cs ! j \<notin> set candidates
   \<Longrightarrow> first_candidate cs = Some (cs ! i)"
proof (induction cs arbitrary: i)
  case Nil
  then show ?case by simp
next
  case (Cons c cs)
  show ?case
  proof (cases i)
    case 0
    with Cons.prems show ?thesis by simp
  next
    case (Suc k)
    with Cons.prems have "c \<notin> set candidates" by auto
    moreover have "first_candidate cs = Some (cs ! k)"
      using Cons.prems Suc by (intro Cons.IH) auto
    ultimately show ?thesis using Suc by simp
  qed
qed

lemma first_candidate_None:
  "first_candidate cs = None \<longleftrightarrow> (\<forall>c\<in>set cs. c \<notin> set candidates)"
  by (induction cs) auto

lemma first_candidate_in: "first_candidate cs = Some c \<Longrightarrow> c \<in> set cs"
  by (induction cs) (auto split: if_splits)

lemma first_unique_Some:
  "i < length cs \<Longrightarrow> is_unique (getitem df (cs ! i)) \<Longrightarrow>
   \<forall>j<i. \<not> is_unique (getitem df (cs ! j)) \<Longrightarrow> first_unique df cs = Some (cs ! i)"
proof (induction cs arbitrary: i)
  case Nil
  then show ?case by simp
next
  case (Cons c cs)
  show ?case
  proof (cases i)
    case 0
    with Cons.prems show ?thesis by simp
  next
    case (Suc k)
    with Cons.prems have "\<not> is_unique (getitem df c)" by auto
    moreover have "first_unique df cs = Some (cs ! k)"
      using Cons.prems Suc by (intro Cons.IH) auto
    ultimately show ?thesis using Suc by simp
  qed
qed

lemma first_unique_None:
  "first_unique df cs = None \<longleftrightarrow> (\<forall>c\<in>set cs. \<not> is_unique (getitem df c))"
  by (induction cs) auto

lemma first_unique_in: "first_unique df cs = Some c \<Longrightarrow> c \<in> set cs"
  by (induction cs) (auto split: if_splits)

lemma find_key_column_in: "find_key_column df = Some key \<Longrightarrow> key \<in> set (columns df)"
  by (auto simp: find_key_column_def split: option.splits
           dest: first_candidate_in first_unique_in)

text \<open>
  Claim C4. For a table with distinct column labels, key detection returns the first column, in column order, whose label is one of
  the candidate names, whether or not its values repeat; the first column with pairwise
  distinct values is returned only when no label is a candidate name; and nothing is
  returned when no column qualifies.
\<close>

theorem find_key_column_precedence:
  assumes "wf_dataframe df"
  shows "(\<forall>i<length (columns df).
      columns df ! i \<in> set candidates \<longrightarrow> (\<forall>j<i. columns df ! j \<notin> set candidates) \<longrightarrow>
      find_key_column df = Some (columns df ! i)) \<and>
   ((\<forall>c\<in>set (columns df). c \<notin> set candidates) \<longrightarrow>
      (\<forall>i<length (columns df).
         is_unique (getitem df (columns df ! i)) \<longrightarrow>
         (\<forall>j<i. \<not> is_unique (getitem df (columns df ! j))) \<longrightarrow>
         find_key_column df = Some (columns df ! i))) \<and>
   ((\<forall>c\<in>set (columns df). c \<notin> set candidates \<and> \<not> is_unique (getitem df c)) \<longrightarrow>
      find_key_column df = None)"
proof (intro conjI allI impI)
  fix i
  assume "i < length (columns df)" "columns df ! i \<in> set candidates"
    "\<forall>j<i. columns df ! j \<notin> set candidates"
  then have "first_candidate (columns df) = Some (columns df ! i)"
    by (rule first_candidate_Some)
  then show "find_key_column df = Some (columns df ! i)"
    by (simp add: find_key_column_def)
next
  fix i
  assume none: "\<forall>c\<in>set (columns df). c \<notin> set candidates"
    and "i < length (columns df)" "is_unique (getitem df (columns df ! i))"
    "\<forall>j<i. \<not> is_unique (getitem df (columns df ! j))"
  then have "first_unique df (columns df) = Some (columns df ! i)"
    by (intro first_unique_Some)
  moreover from none have "first_candidate (columns df) = None"
    by (simp add: first_candidate_None)
  ultimately show "find_key_column df = Some (columns df ! i)"
    by (simp add: find_key_column_def)
next
  assume none: "\<forall>c\<in>set (columns df). c \<notin> set candidates \<and> \<not> is_unique (getitem df c)"
  then have "first_candidate (columns df) = None" "first_unique df (columns df) = None"
    by (simp_all add: first_candidate_None first_unique_None)
  then show "find_key_column df = None"
    by (simp add: find_key_column_def)
qed

theorem find_key_column_precedence_witness:
  "wf_dataframe \<lparr>columns = [''name'', ''id''], data = [[PyStr ''Ana'', PyInt 7], [PyStr ''Luis'', PyInt 7]]\<rparr> \<and>
   \<not> is_unique (getitem \<lparr>columns = [''name'', ''id''], data = [[PyStr ''Ana'', PyInt 7], [PyStr ''Luis'', PyInt 7]]\<rparr> ''id'') \<and>
   find_key_column \<lparr>columns = [''name'', ''id''], data = [[PyStr ''Ana'', PyInt 7], [PyStr ''Luis'', PyInt 7]]\<rparr> = Some ''id'' \<and>
   wf_dataframe \<lparr>columns = [''x'', ''y''], data = [[PyInt 1, PyInt 2], [PyInt 1, PyInt 3]]\<rparr> \<and>
   find_key_column \<lparr>columns = [''x'', ''y''], data = [[PyInt 1, PyInt 2], [PyInt 1, PyInt 3]]\<rparr> = Some ''y'' \<and>
   wf_dataframe \<lparr>columns = [''x'', ''y''], data = [[PyInt 1, PyInt 2], [PyInt 1, PyInt 2]]\<rparr> \<and>
   find_key_column \<lparr>columns = [''x'', ''y''], data = [[PyInt 1, PyInt 2], [PyInt 1, PyInt 2]]\<rparr> = None"
proof -
  have w1: "wf_dataframe \<lparr>columns = [''name'', ''id''], data = [[PyStr ''Ana'', PyInt 7], [PyStr ''Luis'', PyInt 7]]\<rparr>"
    and w2: "wf_dataframe \<lparr>columns = [''x'', ''y''], data = [[PyInt 1, PyInt 2], [PyInt 1, PyInt 3]]\<rparr>"
    and w3: "wf_dataframe \<lparr>columns = [''x'', ''y''], data = [[PyInt 1, PyInt 2], [PyInt 1, PyInt 2]]\<rparr>"
    by (simp_all add: wf_dataframe_def)
  from find_key_column_precedence [OF w1, THEN conjunct1, THEN spec, of 1]
    find_key_column_precedence [OF w2, THEN conjunct2, THEN conjunct1, THEN mp, THEN spec, of 1]
    find_key_column_precedence [OF w3, THEN conjunct2, THEN conjunct2]
    w1 w2 w3
  show ?thesis
    by (simp_all add: candidates_def getitem_def is_unique_def)
qed

section \<open>Row fingerprint: properties\<close>

lemma length_le_bytes: "length (le_bytes n v) = n"
  by (simp add: le_bytes_def)

lemma length_md5: "length (md5 msg) = 16"
  by (simp add: md5_def Let_def length_le_bytes split: prod.splits)

lemma hex_digit_lower: "n < 16 \<Longrightarrow> hex_digit n \<in> set ''0123456789abcdef''"
proof -
  assume "n < 16"
  then have "n < length ''0123456789abcdef''" by simp
  then show ?thesis unfolding hex_digit_def by (rule nth_mem)
qed

lemma unat_byte_div: "unat (b :: byte) div 16 < 16"
proof -
  have "unat b < 2 ^ 8" using unsigned_less[of b, where 'a = nat] by simp
  then show ?thesis by simp
qed

lemma hexdigest_props:
  "length (hexdigest bs) = 2 * length bs" "set (hexdigest bs) \<subseteq> set ''0123456789abcdef''"
proof -
  show "length (hexdigest bs) = 2 * length bs"
    by (induction bs) (simp_all add: hexdigest_def)
  have h1: "hex_digit (unat b div 16) \<in> set ''0123456789abcdef''" for b :: byte
    by (rule hex_digit_lower) (rule unat_byte_div)
  have h2: "hex_digit (unat b mod 16) \<in> set ''0123456789abcdef''" for b :: byte
    by (rule hex_digit_lower) simp
  show "set (hexdigest bs) \<subseteq> set ''0123456789abcdef''"
  proof (induction bs)
    case Nil
    then show ?case by (simp add: hexdigest_def)
  next
    case (Cons b bs)
    have "hexdigest (b # bs) = hex_digit (unat b div 16) # hex_digit (unat b mod 16) # hexdigest bs"
      by (simp add: hexdigest_def)
    then show ?case using h1[of b] h2[of b] Cons by (simp del: set_simps add: list.set)
  qed
qed

lemma row_hash_spec: "row_hash row = fingerprint_spec row"
proof -
  have "(\<lambda>v. if isna v then '''' else strip (str v)) = normalized"
    by (rule ext) (simp add: normalized_def isna_def split: cell.splits)
  then show ?thesis
    by (simp add: row_hash_def fingerprint_spec_def joined_def)
qed

text \<open>The MD5 model on a test vector, as \<open>hashlib\<close> computes it.\<close>

lemma md5_test_vector: "hexdigest (md5 (encode_utf8 ''a|b|c'')) = ''2e077b3ec5932ac3cf914ebdf242b4ee''"
  by code_simp

lemma joined_example_left: "joined [PyStr ''a|b'', PyStr ''c''] = ''a|b|c''"
  by code_simp
lemma joined_example_right: "joined [PyStr ''a'', PyStr ''b|c''] = ''a|b|c''"
  by code_simp

text \<open>
  Claim C7. The fingerprint of a row is the lower case hexadecimal MD5 digest (32
  characters) of the UTF-8 encoding of the row's normalized values joined with a bar. It
  is a function of the row, any two rows with the same joined string have the same
  fingerprint, and the rows \<open>["a|b", "c"]\<close> and \<open>["a", "b|c"]\<close> are such a pair.
\<close>

theorem row_hash_is_md5_of_joined_row:
  "row_hash row = fingerprint_spec row \<and>
   length (row_hash row) = 32 \<and> set (row_hash row) \<subseteq> set ''0123456789abcdef'' \<and>
   (joined row = joined row' \<longrightarrow> row_hash row = row_hash row') \<and>
   row_hash [PyStr ''a|b'', PyStr ''c''] = row_hash [PyStr ''a'', PyStr ''b|c'']"
proof -
  have "row_hash [PyStr ''a|b'', PyStr ''c''] = row_hash [PyStr ''a'', PyStr ''b|c'']"
    unfolding row_hash_spec fingerprint_spec_def joined_example_left joined_example_right ..
  moreover have "length (row_hash row) = 32"
    by (simp add: row_hash_spec fingerprint_spec_def hexdigest_props length_md5)
  moreover have "set (row_hash row) \<subseteq> set ''0123456789abcdef''"
    unfolding row_hash_spec fingerprint_spec_def by (rule hexdigest_props)
  ultimately show ?thesis
    by (simp add: row_hash_spec fingerprint_spec_def)
qed

theorem row_hash_is_md5_of_joined_row_witness:
  "joined [PyStr ''  x '', NaN, PyInt 12] = joined [PyStr ''x|'', PyStr ''12 ''] \<and>
   row_hash [PyStr ''  x '', NaN, PyInt 12] = row_hash [PyStr ''x|'', PyStr ''12 '']"
proof -
  have "joined [PyStr ''  x '', NaN, PyInt 12] = joined [PyStr ''x|'', PyStr ''12 '']"
    by code_simp
  with row_hash_is_md5_of_joined_row [of "[PyStr ''  x '', NaN, PyInt 12]" "[PyStr ''x|'', PyStr ''12 '']"]
  show ?thesis by blast
qed

section \<open>Pairing of files: properties\<close>

subsection \<open>The dictionary of stems\<close>

lemma map_of_dict_set: "map_of (dict_set d k v) = (map_of d)(k \<mapsto> v)"
  by (induction d) (auto simp: fun_eq_iff)

lemma keys_dict_set:
  "map fst (dict_set d k v) = (if k \<in> fst ` set d then map fst d else map fst d @ [k])"
proof (induction d)
  case Nil
  then show ?case by simp
next
  case (Cons p d)
  obtain k' v' where p: "p = (k', v')" by (cases p)
  show ?case using Cons by (cases "k' = k") (simp_all add: p)
qed

lemma stems_of_snoc: "stems_of (files @ [f]) = dict_set (stems_of files) (stem f) f"
  by (simp add: stems_of_def)

lemma stems_of_keys:
  "distinct (map fst (stems_of files_b)) \<and> fst ` set (stems_of files_b) = stem ` set files_b"
proof (induction files_b rule: rev_induct)
  case Nil
  then show ?case by (simp add: stems_of_def)
next
  case (snoc f files)
  have "set (map fst (stems_of (files @ [f]))) = stem ` set (files @ [f])"
    unfolding stems_of_snoc keys_dict_set using snoc by auto
  moreover have "distinct (map fst (stems_of (files @ [f])))"
    unfolding stems_of_snoc keys_dict_set using snoc by auto
  ultimately show ?case by simp
qed

lemma stems_of_lookup:
  "map_of (stems_of files_b) s = Some f \<Longrightarrow>
   \<exists>pre post. files_b = pre @ f # post \<and> stem f = s \<and> (\<forall>g\<in>set post. stem g \<noteq> s)"
proof (induction files_b rule: rev_induct)
  case Nil
  then show ?case by (simp add: stems_of_def)
next
  case (snoc g files)
  show ?case
  proof (cases "stem g = s")
    case True
    with snoc.prems have "f = g" by (simp add: stems_of_snoc map_of_dict_set)
    with True have "files @ [g] = files @ f # [] \<and> stem f = s \<and> (\<forall>h\<in>set []. stem h \<noteq> s)"
      by simp
    then show ?thesis by blast
  next
    case False
    with snoc.prems have "map_of (stems_of files) s = Some f"
      by (simp add: stems_of_snoc map_of_dict_set)
    from snoc.IH[OF this] obtain pre post where
      "files = pre @ f # post" "stem f = s" "\<forall>h\<in>set post. stem h \<noteq> s" by blast
    with False have "files @ [g] = pre @ f # (post @ [g]) \<and> stem f = s \<and>
                     (\<forall>h\<in>set (post @ [g]). stem h \<noteq> s)" by simp
    then show ?thesis by blast
  qed
qed

lemma stems_of_entry:
  assumes "(s, f) \<in> set (stems_of files_b)"
  shows "map_of (stems_of files_b) s = Some f"
  using assms stems_of_keys[of files_b] by simp

lemma exact_match_Some:
  "exact_match a d = Some fb \<Longrightarrow> \<exists>bstem. (bstem, fb) \<in> set d \<and> lower a = lower bstem"
proof (induction d)
  case Nil
  then show ?case by simp
next
  case (Cons p d)
  obtain k v where p: "p = (k, v)" by (cases p)
  show ?case using Cons by (cases "lower a = lower k") (auto simp: p)
qed

lemma exact_match_None:
  "exact_match a d = None \<longleftrightarrow> (\<forall>p\<in>set d. lower a \<noteq> lower (fst p))"
proof (induction d)
  case Nil
  then show ?case by simp
next
  case (Cons p d)
  obtain k v where p: "p = (k, v)" by (cases p)
  show ?case using Cons by (cases "lower a = lower k") (auto simp: p)
qed

lemma py_max_in: "py_max x xs \<in> set (x # xs)"
  unfolding py_max_def by (induction xs arbitrary: x) auto

lemma get_close_matches_in:
  assumes "get_close_matches word possibilities cutoff = Inr m" "m \<noteq> []"
  shows "hd m \<in> set possibilities"
proof -
  let ?res = "map (\<lambda>x. (ratio x word, x))
                (filter (\<lambda>x. real_quick_ratio x word \<ge> cutoff \<and> quick_ratio x word \<ge> cutoff \<and>
                             ratio x word \<ge> cutoff) possibilities)"
  from assms obtain r rs where res: "?res = r # rs" and m: "m = [snd (py_max r rs)]"
    by (auto simp: get_close_matches_def Let_def split: if_splits list.splits)
  have "py_max r rs \<in> set ?res" using py_max_in[of r rs] res by simp
  then have "snd (py_max r rs) \<in> set possibilities" by auto
  then show ?thesis using m by simp
qed

lemma get_close_matches_Inr:
  "0 \<le> cutoff \<Longrightarrow> cutoff \<le> 1 \<Longrightarrow> \<exists>m. get_close_matches word possibilities cutoff = Inr m"
  by (auto simp: get_close_matches_def Let_def split: list.splits)

lemma pair_step_exact:
  "exact_match (stem fa) stems_b = Some fb \<Longrightarrow> pair_step stems_b threshold fa = Inr [(fa, fb, 1)]"
  by (simp add: pair_step_def)

lemma pair_step_members:
  assumes "pair_step stems_b threshold fa = Inr new" "(fa', fb, s) \<in> set new"
    and "distinct (map fst stems_b)"
  shows "fa' = fa \<and> (\<exists>k. map_of stems_b k = Some fb)"
proof (cases "exact_match (stem fa) stems_b")
  case (Some f)
  with assms(1,2) have "fa' = fa" "fb = f" by (auto simp: pair_step_def)
  moreover from Some obtain k where "(k, f) \<in> set stems_b"
    using exact_match_Some by blast
  then have "map_of stems_b k = Some f" using assms(3) by simp
  ultimately show ?thesis by blast
next
  case None
  with assms(1,2) show ?thesis
    by (auto simp: pair_step_def Let_def split: sum.splits if_splits option.splits)
qed

lemma pair_step_Inr:
  assumes "0 \<le> threshold" "threshold \<le> 1"
  shows "\<exists>new. pair_step stems_b threshold fa = Inr new"
proof (cases "exact_match (stem fa) stems_b")
  case (Some f)
  then show ?thesis by (simp add: pair_step_def)
next
  case None
  from get_close_matches_Inr[OF assms] obtain m where
    m: "get_close_matches (stem fa) (map fst stems_b) threshold = Inr m" by blast
  show ?thesis
  proof (cases "m = []")
    case True
    with None m show ?thesis by (simp add: pair_step_def)
  next
    case False
    from get_close_matches_in[OF m False] have "hd m \<in> fst ` set stems_b" by simp
    then obtain fb where "map_of stems_b (hd m) = Some fb"
      by (metis domD dom_map_of_conv_image_fst)
    with None m False show ?thesis by (simp add: pair_step_def)
  qed
qed

lemma pair_loop_Inr:
  "pair_loop stems_b threshold files acc = Inr pairs \<longleftrightarrow>
   (\<exists>news. list_all2 (\<lambda>fa new. pair_step stems_b threshold fa = Inr new) files news \<and>
           pairs = acc @ concat news)"
proof (induction files arbitrary: acc)
  case Nil
  then show ?case by auto
next
  case (Cons fa files)
  show ?case
  proof (cases "pair_step stems_b threshold fa")
    case (Inl e)
    then show ?thesis by (auto simp: list_all2_Cons1)
  next
    case (Inr new)
    then show ?thesis using Cons.IH[of "acc @ new"] by (auto simp: list_all2_Cons1)
  qed
qed

lemma pair_files_Inr:
  "pair_files files_a files_b threshold = Inr pairs \<longleftrightarrow>
   (\<exists>news. list_all2 (\<lambda>fa new. pair_step (stems_of files_b) threshold fa = Inr new) files_a news \<and>
           pairs = concat news)"
  by (simp add: pair_files_def pair_loop_Inr)

lemma pair_files_total:
  assumes "0 \<le> threshold" "threshold \<le> 1"
  shows "\<exists>pairs. pair_files files_a files_b threshold = Inr pairs"
proof -
  have "\<exists>news. list_all2 (\<lambda>fa new. pair_step (stems_of files_b) threshold fa = Inr new) files_a news"
  proof (induction files_a)
    case Nil
    then show ?case by simp
  next
    case (Cons fa files_a)
    then show ?case using pair_step_Inr[OF assms, of "stems_of files_b" fa]
      by (auto simp: list_all2_Cons1)
  qed
  then show ?thesis by (auto simp: pair_files_Inr)
qed

lemma filter_pairs_of:
  assumes "list_all2 (\<lambda>fa' new. pair_step d t fa' = Inr new) files news"
    and "pair_step d t fa = Inr [p]" "fst p = fa" "distinct (map fst d)"
  shows "filter (\<lambda>q. fst q = fa) (concat news) = replicate (count_list files fa) p"
  using assms(1)
proof (induction files news rule: list_all2_induct)
  case Nil
  then show ?case by simp
next
  case (Cons fa' files new news)
  show ?case
  proof (cases "fa' = fa")
    case True
    with Cons.hyps(1) assms(2) have "new = [p]" by simp
    with Cons.IH True assms(3) show ?thesis by simp
  next
    case False
    have "filter (\<lambda>q. fst q = fa) new = []"
    proof (rule filter_False, rule ballI)
      fix q assume "q \<in> set new"
      then have "fst q = fa'"
        using pair_step_members[OF Cons.hyps(1) _ assms(4), of "fst q" "fst (snd q)" "snd (snd q)"]
        by simp
      with False show "\<not> fst q = fa" by simp
    qed
    with Cons.IH False show ?thesis by simp
  qed
qed

text \<open>
  Claim C5. An A file whose stem equals the stem of some B file up to case is paired with
  such a B file at score exactly 1, whatever the threshold, without any fuzzy matching:
  the loop body yields that single pair, every pair emitted for the A file is that pair,
  and with a threshold in [0, 1] the pairing as a whole succeeds. For "Report" against
  "report" and "Report2024" at threshold 0.5 the pair is ("Report", "report", 1).
\<close>

theorem exact_match_pairs_with_score_one:
  assumes "fa \<in> set files_a" "\<exists>fb\<in>set files_b. lower (stem fb) = lower (stem fa)"
  shows "\<exists>fb\<in>set files_b.
           lower (stem fb) = lower (stem fa) \<and>
           pair_step (stems_of files_b) threshold fa = Inr [(fa, fb, 1)] \<and>
           (\<forall>pairs. pair_files files_a files_b threshold = Inr pairs \<longrightarrow>
              filter (\<lambda>p. fst p = fa) pairs = replicate (count_list files_a fa) (fa, fb, 1)) \<and>
           (0 \<le> threshold \<and> threshold \<le> 1 \<longrightarrow>
              (\<exists>pairs. pair_files files_a files_b threshold = Inr pairs))"
proof -
  let ?d = "stems_of files_b"
  from assms(2) have "\<not> (\<forall>p\<in>set ?d. lower (stem fa) \<noteq> lower (fst p))"
    using stems_of_keys[of files_b] by (metis image_iff)
  then obtain fb where fb: "exact_match (stem fa) ?d = Some fb"
    using exact_match_None[of "stem fa" ?d] by auto
  then obtain bstem where b: "(bstem, fb) \<in> set ?d" "lower (stem fa) = lower bstem"
    using exact_match_Some by blast
  then have "map_of ?d bstem = Some fb" by (simp add: stems_of_entry)
  from stems_of_lookup[OF this] have in_b: "fb \<in> set files_b" "stem fb = bstem" by auto
  have step: "pair_step ?d threshold fa = Inr [(fa, fb, 1)]"
    using fb by (rule pair_step_exact)
  have "filter (\<lambda>p. fst p = fa) pairs = replicate (count_list files_a fa) (fa, fb, 1)"
    if "pair_files files_a files_b threshold = Inr pairs" for pairs
  proof -
    from that obtain news where
      "list_all2 (\<lambda>fa new. pair_step ?d threshold fa = Inr new) files_a news" "pairs = concat news"
      by (auto simp: pair_files_Inr)
    then show ?thesis using filter_pairs_of[OF _ step] stems_of_keys[of files_b] by simp
  qed
  then show ?thesis using in_b b(2) step pair_files_total[of threshold files_a files_b] by auto
qed

theorem exact_match_pairs_with_score_one_witness:
  "\<lparr>folder = ''A'', stem = ''Report'', extension = ''.xlsx''\<rparr> \<in> set [\<lparr>folder = ''A'', stem = ''Report'', extension = ''.xlsx''\<rparr>] \<and>
   (\<exists>fb\<in>set [\<lparr>folder = ''B'', stem = ''report'', extension = ''.xlsx''\<rparr>, \<lparr>folder = ''B'', stem = ''Report2024'', extension = ''.xlsx''\<rparr>]. lower (stem fb) = lower (stem \<lparr>folder = ''A'', stem = ''Report'', extension = ''.xlsx''\<rparr>)) \<and>
   (\<exists>fb\<in>set [\<lparr>folder = ''B'', stem = ''report'', extension = ''.xlsx''\<rparr>, \<lparr>folder = ''B'', stem = ''Report2024'', extension = ''.xlsx''\<rparr>].
      lower (stem fb) = lower (stem \<lparr>folder = ''A'', stem = ''Report'', extension = ''.xlsx''\<rparr>) \<and>
      pair_step (stems_of [\<lparr>folder = ''B'', stem = ''report'', extension = ''.xlsx''\<rparr>, \<lparr>folder = ''B'', stem = ''Report2024'', extension = ''.xlsx''\<rparr>]) (1 / 2) \<lparr>folder = ''A'', stem = ''Report'', extension = ''.xlsx''\<rparr> = Inr [(\<lparr>folder = ''A'', stem = ''Report'', extension = ''.xlsx''\<rparr>, fb, 1)]) \<and>
   pair_files [\<lparr>folder = ''A'', stem = ''Report'', extension = ''.xlsx''\<rparr>] [\<lparr>folder = ''B'', stem = ''report'', extension = ''.xlsx''\<rparr>, \<lparr>folder = ''B'', stem = ''Report2024'', extension = ''.xlsx''\<rparr>] (1 / 2) = Inr [(\<lparr>folder = ''A'', stem = ''Report'', extension = ''.xlsx''\<rparr>, \<lparr>folder = ''B'', stem = ''report'', extension = ''.xlsx''\<rparr>, 1)]"
proof -
  have h1: "\<lparr>folder = ''A'', stem = ''Report'', extension = ''.xlsx''\<rparr> \<in> set [\<lparr>folder = ''A'', stem = ''Report'', extension = ''.xlsx''\<rparr>]" by simp
  have h2: "\<exists>fb\<in>set [\<lparr>folder = ''B'', stem = ''report'', extension = ''.xlsx''\<rparr>, \<lparr>folder = ''B'', stem = ''Report2024'', extension = ''.xlsx''\<rparr>]. lower (stem fb) = lower (stem \<lparr>folder = ''A'', stem = ''Report'', extension = ''.xlsx''\<rparr>)"
    by code_simp
  have v: "pair_files [\<lparr>folder = ''A'', stem = ''Report'', extension = ''.xlsx''\<rparr>] [\<lparr>folder = ''B'', stem = ''report'', extension = ''.xlsx''\<rparr>, \<lparr>folder = ''B'', stem = ''Report2024'', extension = ''.xlsx''\<rparr>] (1 / 2) = Inr [(\<lparr>folder = ''A'', stem = ''Report'', extension = ''.xlsx''\<rparr>, \<lparr>folder = ''B'', stem = ''report'', extension = ''.xlsx''\<rparr>, 1)]"
    by code_simp
  from exact_match_pairs_with_score_one [OF h1 h2, of "1 / 2"] h1 h2 v
  show ?thesis by blast
qed

text \<open>
  Claim C9. The B files are indexed by stem, so a B file that appears in an emitted pair,
  by exact or by fuzzy matching, is the last file of B's enumeration with its stem: no
  later B file has the same stem.
\<close>

theorem only_last_file_of_a_stem_is_paired:
  assumes "pair_files files_a files_b threshold = Inr pairs" "(fa, fb, score) \<in> set pairs"
  shows "\<exists>pre post. files_b = pre @ fb # post \<and> (\<forall>g\<in>set post. stem g \<noteq> stem fb)"
proof -
  from assms obtain news new where
    "list_all2 (\<lambda>fa new. pair_step (stems_of files_b) threshold fa = Inr new) files_a news"
    "new \<in> set news" "(fa, fb, score) \<in> set new"
    by (auto simp: pair_files_Inr)
  then obtain fa' where "pair_step (stems_of files_b) threshold fa' = Inr new"
    by (auto simp: list_all2_conv_all_nth in_set_conv_nth)
  from pair_step_members[OF this \<open>(fa, fb, score) \<in> set new\<close>] stems_of_keys[of files_b]
  obtain k where "map_of (stems_of files_b) k = Some fb" by blast
  from stems_of_lookup[OF this] show ?thesis by blast
qed

theorem only_last_file_of_a_stem_is_paired_witness:
  "pair_files [\<lparr>folder = ''A'', stem = ''tide'', extension = ''.xlsx''\<rparr>, \<lparr>folder = ''A'', stem = ''diet'', extension = ''.xlsx''\<rparr>] [\<lparr>folder = ''B'', stem = ''diet'', extension = ''.xls''\<rparr>, \<lparr>folder = ''B'', stem = ''diet'', extension = ''.xlsx''\<rparr>] (1 / 2) = Inr [(\<lparr>folder = ''A'', stem = ''tide'', extension = ''.xlsx''\<rparr>, \<lparr>folder = ''B'', stem = ''diet'', extension = ''.xlsx''\<rparr>, 1 / 4), (\<lparr>folder = ''A'', stem = ''diet'', extension = ''.xlsx''\<rparr>, \<lparr>folder = ''B'', stem = ''diet'', extension = ''.xlsx''\<rparr>, 1)] \<and>
   (\<exists>pre post. [\<lparr>folder = ''B'', stem = ''diet'', extension = ''.xls''\<rparr>, \<lparr>folder = ''B'', stem = ''diet'', extension = ''.xlsx''\<rparr>] = pre @ \<lparr>folder = ''B'', stem = ''diet'', extension = ''.xlsx''\<rparr> # post \<and> (\<forall>g\<in>set post. stem g \<noteq> stem \<lparr>folder = ''B'', stem = ''diet'', extension = ''.xlsx''\<rparr>))"
proof -
  have v: "pair_files [\<lparr>folder = ''A'', stem = ''tide'', extension = ''.xlsx''\<rparr>, \<lparr>folder = ''A'', stem = ''diet'', extension = ''.xlsx''\<rparr>] [\<lparr>folder = ''B'', stem = ''diet'', extension = ''.xls''\<rparr>, \<lparr>folder = ''B'', stem = ''diet'', extension = ''.xlsx''\<rparr>] (1 / 2) = Inr [(\<lparr>folder = ''A'', stem = ''tide'', extension = ''.xlsx''\<rparr>, \<lparr>folder = ''B'', stem = ''diet'', extension = ''.xlsx''\<rparr>, 1 / 4), (\<lparr>folder = ''A'', stem = ''diet'', extension = ''.xlsx''\<rparr>, \<lparr>folder = ''B'', stem = ''diet'', extension = ''.xlsx''\<rparr>, 1)]"
    by code_simp
  have "(\<lparr>folder = ''A'', stem = ''tide'', extension = ''.xlsx''\<rparr>, \<lparr>folder = ''B'', stem = ''diet'', extension = ''.xlsx''\<rparr>, 1 / 4) \<in> set [(\<lparr>folder = ''A'', stem = ''tide'', extension = ''.xlsx''\<rparr>, \<lparr>folder = ''B'', stem = ''diet'', extension = ''.xlsx''\<rparr>, 1 / 4 :: rat), (\<lparr>folder = ''A'', stem = ''diet'', extension = ''.xlsx''\<rparr>, \<lparr>folder = ''B'', stem = ''diet'', extension = ''.xlsx''\<rparr>, 1)]"
    by simp
  from only_last_file_of_a_stem_is_paired [OF v this] v show ?thesis by blast
qed

section \<open>Similarity of names: properties\<close>

subsection \<open>The quick ratios are upper bounds of the ratio\<close>

lemma slice_split:
  assumes "lo \<le> mid" "mid \<le> hi"
  shows "slice xs lo hi = slice xs lo mid @ slice xs mid hi"
proof -
  have "hi - lo = (mid - lo) + (hi - mid)" using assms by simp
  then have "take (hi - lo) (drop lo xs) =
        take (mid - lo) (drop lo xs) @ take (hi - mid) (drop (mid - lo) (drop lo xs))"
    by (simp only: take_add)
  moreover have "drop (mid - lo) (drop lo xs) = drop mid xs" using assms by simp
  ultimately show ?thesis by (simp add: slice_def)
qed

lemma length_slice: "hi \<le> length xs \<Longrightarrow> length (slice xs lo hi) = hi - lo"
  by (simp add: slice_def)

lemma slice_eq:
  assumes "i + k \<le> length a" "j + k \<le> length b" "\<forall>t<k. a ! (i + t) = b ! (j + t)"
  shows "slice a i (i + k) = slice b j (j + k)"
  using assms by (intro nth_equalityI) (simp_all add: slice_def)

lemma inter_superadditive:
  "size (A1 \<inter># B1) + size (A2 \<inter># B2) \<le> size ((A1 + A2) \<inter># (B1 + B2))"
proof -
  have "(A1 \<inter># B1) + (A2 \<inter># B2) \<subseteq># (A1 + A2) \<inter># (B1 + B2)"
    by (rule mset_subset_eqI) (simp add: min_def)
  then have "size ((A1 \<inter># B1) + (A2 \<inter># B2)) \<le> size ((A1 + A2) \<inter># (B1 + B2))"
    by (rule size_mset_mono)
  then show ?thesis by simp
qed

lemma matching_size_le_inter:
  "alo \<le> ahi \<Longrightarrow> ahi \<le> length a \<Longrightarrow> blo \<le> bhi \<Longrightarrow> bhi \<le> length b \<Longrightarrow>
   matching_size a b alo ahi blo bhi \<le> size (mset (slice a alo ahi) \<inter># mset (slice b blo bhi))"
proof (induction a b alo ahi blo bhi rule: matching_size.induct)
  case (1 a b alo ahi blo bhi)
  obtain i j k where m: "find_longest_match a b alo ahi blo bhi = (i, j, k)"
    by (cases "find_longest_match a b alo ahi blo bhi")
  show ?case
  proof (cases "k = 0")
    case True
    with m show ?thesis by (subst matching_size.simps) simp
  next
    case False
    from find_longest_match_sound[OF m False] have s:
      "alo \<le> i" "i + k \<le> ahi" "blo \<le> j" "j + k \<le> bhi" "\<forall>t<k. a ! (i + t) = b ! (j + t)"
      by auto
    let ?l = "if alo < i \<and> blo < j then matching_size a b alo i blo j else 0"
    let ?r = "if i + k < ahi \<and> j + k < bhi then matching_size a b (i + k) ahi (j + k) bhi else 0"
    have l: "?l \<le> size (mset (slice a alo i) \<inter># mset (slice b blo j))"
    proof (cases "alo < i \<and> blo < j")
      case True
      have "matching_size a b alo i blo j \<le> size (mset (slice a alo i) \<inter># mset (slice b blo j))"
        using "1.IH"(1)[OF m[symmetric] refl False True] s "1.prems" by simp
      then show ?thesis using True by simp
    next
      case False
      then have "?l = 0" by (rule if_not_P)
      then show ?thesis by simp
    qed
    have r: "?r \<le> size (mset (slice a (i + k) ahi) \<inter># mset (slice b (j + k) bhi))"
    proof (cases "i + k < ahi \<and> j + k < bhi")
      case True
      have "matching_size a b (i + k) ahi (j + k) bhi \<le>
            size (mset (slice a (i + k) ahi) \<inter># mset (slice b (j + k) bhi))"
        using "1.IH"(2)[OF m[symmetric] refl False True] s "1.prems" by simp
      then show ?thesis using True by simp
    next
      case False
      then have "?r = 0" by (rule if_not_P)
      then show ?thesis by simp
    qed
    have mid: "slice a i (i + k) = slice b j (j + k)"
      using s "1.prems" by (intro slice_eq) auto
    have lenmid: "length (slice a i (i + k)) = k"
      using s "1.prems" by (simp add: length_slice)
    have sa: "slice a alo ahi = slice a alo i @ slice a i (i + k) @ slice a (i + k) ahi"
      using s by (simp add: slice_split[of alo i ahi] slice_split[of i "i + k" ahi])
    have sb: "slice b blo bhi = slice b blo j @ slice b j (j + k) @ slice b (j + k) bhi"
      using s by (simp add: slice_split[of blo j bhi] slice_split[of j "j + k" bhi])
    let ?C = "mset (slice a i (i + k))"
    have "k + ?l + ?r \<le> size (mset (slice a alo i) \<inter># mset (slice b blo j)) + size (?C \<inter># ?C)
            + size (mset (slice a (i + k) ahi) \<inter># mset (slice b (j + k) bhi))"
      using l r lenmid by simp
    also have "\<dots> \<le> size ((mset (slice a alo i) + ?C) \<inter># (mset (slice b blo j) + ?C))
            + size (mset (slice a (i + k) ahi) \<inter># mset (slice b (j + k) bhi))"
      using inter_superadditive[of "mset (slice a alo i)" "mset (slice b blo j)" ?C ?C] by simp
    also have "\<dots> \<le> size ((mset (slice a alo i) + ?C + mset (slice a (i + k) ahi)) \<inter>#
                          (mset (slice b blo j) + ?C + mset (slice b (j + k) bhi)))"
      by (rule inter_superadditive)
    also have "\<dots> = size (mset (slice a alo ahi) \<inter># mset (slice b blo bhi))"
      unfolding sa sb mid[symmetric] by (simp add: ac_simps)
    finally have "k + ?l + ?r \<le> size (mset (slice a alo ahi) \<inter># mset (slice b blo bhi))" .
    moreover have "matching_size a b alo ahi blo bhi = k + ?l + ?r"
      using m False by (subst matching_size.simps) simp
    ultimately show ?thesis by simp
  qed
qed

lemma slice_all: "slice xs 0 (length xs) = xs"
  by (simp add: slice_def)

lemma matching_size_le_quick:
  "matching_size a b 0 (length a) 0 (length b) \<le> size (mset a \<inter># mset b)"
  using matching_size_le_inter[of 0 "length a" a 0 "length b" b] by (simp add: slice_all)

lemma quick_loop_count:
  assumes "\<forall>c. int (count M c) = max 0 (case avail c of Some n \<Rightarrow> n | None \<Rightarrow> int (count_list b c))"
  shows "quick_loop b avail xs matches = matches + size (mset xs \<inter># M)"
  using assms
proof (induction xs arbitrary: avail matches M)
  case Nil
  then show ?case by simp
next
  case (Cons x xs)
  define numb where "numb = (case avail x of Some n \<Rightarrow> n | None \<Rightarrow> int (count_list b x))"
  have cx: "int (count M x) = max 0 numb" using Cons.prems by (simp add: numb_def)
  show ?case
  proof (cases "numb > 0")
    case True
    then have xin: "x \<in># M" using cx by (simp add: count_greater_zero_iff[symmetric] del: count_greater_zero_iff)
    have "count M x \<ge> 1" using xin by simp
    then have "int (count M x - 1) = numb - 1" using cx True by simp
    then have inv: "\<forall>c. int (count (M - {#x#}) c) =
                 max 0 (case (avail(x \<mapsto> numb - 1)) c of Some n \<Rightarrow> n | None \<Rightarrow> int (count_list b c))"
      using Cons.prems True by simp
    have "quick_loop b avail (x # xs) matches = quick_loop b (avail(x \<mapsto> numb - 1)) xs (matches + 1)"
      using True by (simp add: numb_def Let_def)
    also have "\<dots> = matches + 1 + size (mset xs \<inter># (M - {#x#}))"
      by (rule Cons.IH[OF inv])
    also have "\<dots> = matches + size (mset (x # xs) \<inter># M)"
      using xin by (simp add: inter_add_left2)
    finally show ?thesis .
  next
    case False
    then have xout: "x \<notin># M" using cx by (simp add: not_in_iff)
    have "int (count M x) = max 0 (numb - 1)" using cx False by simp
    then have inv: "\<forall>c. int (count M c) =
                 max 0 (case (avail(x \<mapsto> numb - 1)) c of Some n \<Rightarrow> n | None \<Rightarrow> int (count_list b c))"
      using Cons.prems by simp
    have "quick_loop b avail (x # xs) matches = quick_loop b (avail(x \<mapsto> numb - 1)) xs matches"
      using False by (simp add: numb_def Let_def)
    also have "\<dots> = matches + size (mset xs \<inter># M)"
      by (rule Cons.IH[OF inv])
    also have "\<dots> = matches + size (mset (x # xs) \<inter># M)"
      using xout by (simp add: inter_add_left1)
    finally show ?thesis .
  qed
qed

lemma quick_loop_inter: "quick_loop b Map.empty a 0 = size (mset a \<inter># mset b)"
proof -
  have "\<forall>c. int (count (mset b) c) =
          max 0 (case Map.empty c of Some n \<Rightarrow> n | None \<Rightarrow> int (count_list b c))"
    by (simp add: count_mset count_list_eq_length_filter)
  from quick_loop_count[OF this, of a 0] show ?thesis by simp
qed

lemma size_inter_le_min: "size (mset a \<inter># mset b) \<le> min (length a) (length b)"
proof -
  have "size (mset a \<inter># mset b) \<le> size (mset a)" "size (mset a \<inter># mset b) \<le> size (mset b)"
    by (rule size_mset_mono, simp)+
  then show ?thesis by simp
qed

lemma calculate_ratio_mono: "m \<le> n \<Longrightarrow> calculate_ratio m len \<le> calculate_ratio n len"
  by (simp add: calculate_ratio_def divide_right_mono)

lemma ratio_le_quick_ratio: "ratio a b \<le> quick_ratio a b"
  unfolding ratio_def quick_ratio_def quick_loop_inter
  by (rule calculate_ratio_mono) (rule matching_size_le_quick)

lemma quick_ratio_le_real_quick_ratio: "quick_ratio a b \<le> real_quick_ratio a b"
  unfolding real_quick_ratio_def quick_ratio_def quick_loop_inter
  by (rule calculate_ratio_mono) (rule size_inter_le_min)

lemma ratio_nonneg: "0 \<le> ratio a b"
  by (simp add: ratio_def calculate_ratio_def)

lemma close_filter:
  "(real_quick_ratio x w \<ge> c \<and> quick_ratio x w \<ge> c \<and> ratio x w \<ge> c) \<longleftrightarrow> ratio x w \<ge> c"
  using ratio_le_quick_ratio[of x w] quick_ratio_le_real_quick_ratio[of x w] by auto

lemma py_max_ge: "y \<in> set (x # xs) \<Longrightarrow> y \<le> py_max x xs"
proof (induction xs arbitrary: x y)
  case Nil
  then show ?case by (simp add: py_max_def)
next
  case (Cons z zs)
  have step: "py_max x (z # zs) = py_max (if x < z then z else x) zs"
    by (simp add: py_max_def)
  have mono: "(if x < z then z else x) \<le> py_max (if x < z then z else x) zs"
    by (rule Cons.IH) simp
  from Cons.prems consider "y = x" | "y = z" | "y \<in> set zs" by auto
  then show ?case
  proof cases
    case 1
    then show ?thesis using mono unfolding step by (auto split: if_splits)
  next
    case 2
    then show ?thesis using mono unfolding step by (auto split: if_splits)
  next
    case 3
    then show ?thesis unfolding step by (intro Cons.IH) simp
  qed
qed

text \<open>
  With a cutoff in [0, 1], \<open>get_close_matches\<close> returns nothing if no possibility
  reaches the cutoff, and otherwise the possibility with the greatest (ratio, name) pair.
\<close>

lemma get_close_matches_best:
  assumes "0 \<le> cutoff" "cutoff \<le> 1"
  shows "(\<forall>x\<in>set possibilities. ratio x word < cutoff) \<longrightarrow>
           get_close_matches word possibilities cutoff = Inr []"
    and "(\<exists>x\<in>set possibilities. ratio x word \<ge> cutoff) \<longrightarrow>
           (\<exists>best\<in>set possibilities.
              get_close_matches word possibilities cutoff = Inr [best] \<and>
              ratio best word \<ge> cutoff \<and>
              (\<forall>x\<in>set possibilities. ratio x word \<ge> cutoff \<longrightarrow>
                 (ratio x word, x) \<le> (ratio best word, best)))"
proof -
  let ?ok = "filter (\<lambda>x. ratio x word \<ge> cutoff) possibilities"
  let ?res = "map (\<lambda>x. (ratio x word, x)) ?ok"
  have gcm: "get_close_matches word possibilities cutoff =
             (case ?res of [] \<Rightarrow> Inr [] | r # rs \<Rightarrow> Inr [snd (py_max r rs)])"
    using assms by (simp add: get_close_matches_def close_filter)
  show "(\<forall>x\<in>set possibilities. ratio x word < cutoff) \<longrightarrow>
           get_close_matches word possibilities cutoff = Inr []"
  proof
    assume "\<forall>x\<in>set possibilities. ratio x word < cutoff"
    then have "?ok = []" by (auto simp: filter_empty_conv)
    then show "get_close_matches word possibilities cutoff = Inr []"
      unfolding gcm by simp
  qed
  show "(\<exists>x\<in>set possibilities. ratio x word \<ge> cutoff) \<longrightarrow>
           (\<exists>best\<in>set possibilities.
              get_close_matches word possibilities cutoff = Inr [best] \<and>
              ratio best word \<ge> cutoff \<and>
              (\<forall>x\<in>set possibilities. ratio x word \<ge> cutoff \<longrightarrow>
                 (ratio x word, x) \<le> (ratio best word, best)))"
  proof
    assume "\<exists>x\<in>set possibilities. ratio x word \<ge> cutoff"
    then have "?res \<noteq> []" by (auto simp: filter_empty_conv)
    then obtain r rs where res: "?res = r # rs" by (cases ?res) auto
    define m where "m = py_max r rs"
    have m_in: "m \<in> set ?res" using py_max_in[of r rs] res by (simp add: m_def)
    then have m_eq: "m = (ratio (snd m) word, snd m)" and best: "snd m \<in> set possibilities"
      "ratio (snd m) word \<ge> cutoff" by auto
    have "(ratio x word, x) \<le> (ratio (snd m) word, snd m)"
      if "x \<in> set possibilities" "ratio x word \<ge> cutoff" for x
    proof -
      from that have "(ratio x word, x) \<in> set (r # rs)" using res[symmetric] by auto
      from py_max_ge[OF this] show ?thesis using m_eq by (simp add: m_def)
    qed
    moreover have "get_close_matches word possibilities cutoff = Inr [snd m]"
      unfolding gcm res by (simp add: m_def)
    ultimately show "\<exists>best\<in>set possibilities.
              get_close_matches word possibilities cutoff = Inr [best] \<and>
              ratio best word \<ge> cutoff \<and>
              (\<forall>x\<in>set possibilities. ratio x word \<ge> cutoff \<longrightarrow>
                 (ratio x word, x) \<le> (ratio best word, best))"
      using best by blast
  qed
qed

text \<open>
  What holds of the fuzzy step: an A file without exact match is paired exactly when the
  ratio of some B stem (as first sequence) with the A stem reaches the threshold, then
  with the B file of the best such stem; below the threshold it is skipped without
  error; and a threshold of 0 always pairs it when B has a file. The score of the pair
  is the ratio taken in the other order.
\<close>

lemma fuzzy_step:
  assumes "exact_match (stem fa) (stems_of files_b) = None" "0 \<le> threshold" "threshold \<le> 1"
  shows "(\<forall>fb\<in>set files_b. ratio (stem fb) (stem fa) < threshold) \<longrightarrow>
           pair_step (stems_of files_b) threshold fa = Inr []"
    and "(\<exists>fb\<in>set files_b. ratio (stem fb) (stem fa) \<ge> threshold) \<longrightarrow>
           (\<exists>fb\<in>set files_b.
              pair_step (stems_of files_b) threshold fa = Inr [(fa, fb, ratio (stem fa) (stem fb))] \<and>
              ratio (stem fb) (stem fa) \<ge> threshold \<and>
              (\<forall>g\<in>set files_b. ratio (stem g) (stem fa) \<le> ratio (stem fb) (stem fa)))"
    and "threshold = 0 \<longrightarrow> files_b \<noteq> [] \<longrightarrow>
           (\<exists>fb\<in>set files_b. \<exists>score. pair_step (stems_of files_b) threshold fa = Inr [(fa, fb, score)])"
proof -
  let ?d = "stems_of files_b"
  have keys: "set (map fst ?d) = stem ` set files_b" using stems_of_keys[of files_b] by simp
  have step: "pair_step ?d threshold fa =
        (case get_close_matches (stem fa) (map fst ?d) threshold of
           Inl e \<Rightarrow> Inl e
         | Inr m \<Rightarrow>
             if m \<noteq> [] then
               (case map_of ?d (hd m) of
                  None \<Rightarrow> Inl KeyError
                | Some fb \<Rightarrow> Inr [(fa, fb, ratio (stem fa) (hd m))])
             else Inr [])"
    using assms(1) by (simp add: pair_step_def Let_def)
  show c1: "(\<forall>fb\<in>set files_b. ratio (stem fb) (stem fa) < threshold) \<longrightarrow>
           pair_step ?d threshold fa = Inr []"
  proof
    assume "\<forall>fb\<in>set files_b. ratio (stem fb) (stem fa) < threshold"
    then have "\<forall>x\<in>set (map fst ?d). ratio x (stem fa) < threshold" unfolding keys by auto
    with get_close_matches_best(1)[OF assms(2,3), of "map fst ?d" "stem fa"]
    have "get_close_matches (stem fa) (map fst ?d) threshold = Inr []" by blast
    then show "pair_step ?d threshold fa = Inr []" unfolding step by simp
  qed
  show c2: "(\<exists>fb\<in>set files_b. ratio (stem fb) (stem fa) \<ge> threshold) \<longrightarrow>
           (\<exists>fb\<in>set files_b.
              pair_step ?d threshold fa = Inr [(fa, fb, ratio (stem fa) (stem fb))] \<and>
              ratio (stem fb) (stem fa) \<ge> threshold \<and>
              (\<forall>g\<in>set files_b. ratio (stem g) (stem fa) \<le> ratio (stem fb) (stem fa)))"
  proof
    assume ex: "\<exists>fb\<in>set files_b. ratio (stem fb) (stem fa) \<ge> threshold"
    then have "\<exists>x\<in>set (map fst ?d). ratio x (stem fa) \<ge> threshold" unfolding keys by auto
    with get_close_matches_best(2)[OF assms(2,3), of "map fst ?d" "stem fa"]
    obtain best where best: "best \<in> set (map fst ?d)"
      "get_close_matches (stem fa) (map fst ?d) threshold = Inr [best]"
      "ratio best (stem fa) \<ge> threshold"
      "\<forall>x\<in>set (map fst ?d). ratio x (stem fa) \<ge> threshold \<longrightarrow>
          (ratio x (stem fa), x) \<le> (ratio best (stem fa), best)"
      by blast
    from best(1) obtain fb where fb: "map_of ?d best = Some fb"
      by (metis domD dom_map_of_conv_image_fst list.set_map)
    from stems_of_lookup[OF fb] have in_b: "fb \<in> set files_b" "stem fb = best" by auto
    have ps: "pair_step ?d threshold fa = Inr [(fa, fb, ratio (stem fa) (stem fb))]"
      unfolding step best(2) using fb in_b(2) by simp
    have "ratio (stem g) (stem fa) \<le> ratio (stem fb) (stem fa)" if g: "g \<in> set files_b" for g
    proof (cases "ratio (stem g) (stem fa) \<ge> threshold")
      case True
      have "stem g \<in> set (map fst ?d)" unfolding keys using g by simp
      with best(4) True have "(ratio (stem g) (stem fa), stem g) \<le> (ratio best (stem fa), best)"
        by blast
      then show ?thesis unfolding in_b(2) by (auto simp: less_eq_prod_def)
    next
      case False
      then show ?thesis using best(3) in_b(2) by simp
    qed
    with ps best(3) in_b show "\<exists>fb\<in>set files_b.
              pair_step ?d threshold fa = Inr [(fa, fb, ratio (stem fa) (stem fb))] \<and>
              ratio (stem fb) (stem fa) \<ge> threshold \<and>
              (\<forall>g\<in>set files_b. ratio (stem g) (stem fa) \<le> ratio (stem fb) (stem fa))"
      by blast
  qed
  show "threshold = 0 \<longrightarrow> files_b \<noteq> [] \<longrightarrow>
           (\<exists>fb\<in>set files_b. \<exists>score. pair_step ?d threshold fa = Inr [(fa, fb, score)])"
  proof (intro impI)
    assume t: "threshold = 0" and ne: "files_b \<noteq> []"
    then obtain g where "g \<in> set files_b" by (cases files_b) auto
    then have "\<exists>fb\<in>set files_b. ratio (stem fb) (stem fa) \<ge> threshold"
      using t ratio_nonneg by auto
    with c2 show "\<exists>fb\<in>set files_b. \<exists>score. pair_step ?d threshold fa = Inr [(fa, fb, score)]"
      by blast
  qed
qed

text \<open>
  Claim C10. Fuzzy matching is case-sensitive although exact matching is not: when no stem
  of B equals the A stem up to case, the candidates are selected and the score is
  computed on the stems as they are. So "DATA1" against "data2" at threshold 0.8 gives no
  pair, although "data1" against "data2" has ratio 0.8 and is paired.
\<close>

theorem fuzzy_matching_is_case_sensitive:
  "(exact_match (stem fa) stems_b = None \<longrightarrow>
      pair_step stems_b threshold fa =
        (case get_close_matches (stem fa) (map fst stems_b) threshold of
           Inl e \<Rightarrow> Inl e
         | Inr m \<Rightarrow>
             if m \<noteq> [] then
               (case map_of stems_b (hd m) of
                  None \<Rightarrow> Inl KeyError
                | Some fb \<Rightarrow> Inr [(fa, fb, ratio (stem fa) (hd m))])
             else Inr [])) \<and>
   pair_files [\<lparr>folder = ''A'', stem = ''DATA1'', extension = ''.xlsx''\<rparr>] [\<lparr>folder = ''B'', stem = ''data2'', extension = ''.xlsx''\<rparr>] (4 / 5) = Inr [] \<and>
   lower ''DATA1'' = ''data1'' \<and> lower ''data2'' = ''data2'' \<and>
   ratio ''data2'' ''DATA1'' = 0 \<and> ratio ''data2'' ''data1'' = 4 / 5 \<and>
   pair_files [\<lparr>folder = ''A'', stem = ''data1'', extension = ''.xlsx''\<rparr>] [\<lparr>folder = ''B'', stem = ''data2'', extension = ''.xlsx''\<rparr>] (4 / 5) = Inr [(\<lparr>folder = ''A'', stem = ''data1'', extension = ''.xlsx''\<rparr>, \<lparr>folder = ''B'', stem = ''data2'', extension = ''.xlsx''\<rparr>, 4 / 5)]"
proof -
  have closed: "pair_files [\<lparr>folder = ''A'', stem = ''DATA1'', extension = ''.xlsx''\<rparr>] [\<lparr>folder = ''B'', stem = ''data2'', extension = ''.xlsx''\<rparr>] (4 / 5) = Inr [] \<and>
   lower ''DATA1'' = ''data1'' \<and> lower ''data2'' = ''data2'' \<and>
   ratio ''data2'' ''DATA1'' = 0 \<and> ratio ''data2'' ''data1'' = 4 / 5 \<and>
   pair_files [\<lparr>folder = ''A'', stem = ''data1'', extension = ''.xlsx''\<rparr>] [\<lparr>folder = ''B'', stem = ''data2'', extension = ''.xlsx''\<rparr>] (4 / 5) = Inr [(\<lparr>folder = ''A'', stem = ''data1'', extension = ''.xlsx''\<rparr>, \<lparr>folder = ''B'', stem = ''data2'', extension = ''.xlsx''\<rparr>, 4 / 5)]"
    by code_simp
  have general: "exact_match (stem fa) stems_b = None \<longrightarrow>
      pair_step stems_b threshold fa =
        (case get_close_matches (stem fa) (map fst stems_b) threshold of
           Inl e \<Rightarrow> Inl e
         | Inr m \<Rightarrow>
             if m \<noteq> [] then
               (case map_of stems_b (hd m) of
                  None \<Rightarrow> Inl KeyError
                | Some fb \<Rightarrow> Inr [(fa, fb, ratio (stem fa) (hd m))])
             else Inr [])"
    by (simp add: pair_step_def Let_def)
  show ?thesis by (rule conjI [OF general closed])
qed

theorem fuzzy_matching_is_case_sensitive_witness:
  "exact_match (stem \<lparr>folder = ''A'', stem = ''DATA1'', extension = ''.xlsx''\<rparr>) (stems_of [\<lparr>folder = ''B'', stem = ''data2'', extension = ''.xlsx''\<rparr>]) = None \<and>
   pair_step (stems_of [\<lparr>folder = ''B'', stem = ''data2'', extension = ''.xlsx''\<rparr>]) (4 / 5) \<lparr>folder = ''A'', stem = ''DATA1'', extension = ''.xlsx''\<rparr> = Inr [] \<and>
   get_close_matches ''DATA1'' [''data2''] (4 / 5) = Inr []"
proof -
  have h: "exact_match (stem \<lparr>folder = ''A'', stem = ''DATA1'', extension = ''.xlsx''\<rparr>) (stems_of [\<lparr>folder = ''B'', stem = ''data2'', extension = ''.xlsx''\<rparr>]) = None"
    by code_simp
  have g: "get_close_matches (stem \<lparr>folder = ''A'', stem = ''DATA1'', extension = ''.xlsx''\<rparr>) (map fst (stems_of [\<lparr>folder = ''B'', stem = ''data2'', extension = ''.xlsx''\<rparr>])) (4 / 5) = Inr []"
    by code_simp
  have g': "get_close_matches ''DATA1'' [''data2''] (4 / 5) = Inr []"
    by code_simp
  from fuzzy_matching_is_case_sensitive [of "\<lparr>folder = ''A'', stem = ''DATA1'', extension = ''.xlsx''\<rparr>" "stems_of [\<lparr>folder = ''B'', stem = ''data2'', extension = ''.xlsx''\<rparr>]" "4 / 5", THEN conjunct1, THEN mp, OF h]
  have "pair_step (stems_of [\<lparr>folder = ''B'', stem = ''data2'', extension = ''.xlsx''\<rparr>]) (4 / 5) \<lparr>folder = ''A'', stem = ''DATA1'', extension = ''.xlsx''\<rparr> = Inr []"
    unfolding g by simp
  with h g' show ?thesis by simp
qed

text \<open>
  Claim C6. A pair found by fuzzy matching is selected by the ratio computed with the B
  stem as first sequence, but its score is the ratio computed with the A stem as first
  sequence, and the ratio is not symmetric. "tide" against "diet" at threshold 0.5 is
  paired (ratio 0.5 in the order of the selection) with score 0.25, below the threshold;
  "diet" against "tide" is not paired, although the score it would carry is 0.5.
\<close>

theorem fuzzy_score_is_not_the_selecting_ratio:
  "pair_files [\<lparr>folder = ''A'', stem = ''tide'', extension = ''.xlsx''\<rparr>] [\<lparr>folder = ''B'', stem = ''diet'', extension = ''.xlsx''\<rparr>] (1 / 2) = Inr [(\<lparr>folder = ''A'', stem = ''tide'', extension = ''.xlsx''\<rparr>, \<lparr>folder = ''B'', stem = ''diet'', extension = ''.xlsx''\<rparr>, 1 / 4)] \<and>
   ratio ''diet'' ''tide'' = 1 / 2 \<and> ratio ''tide'' ''diet'' = 1 / 4 \<and>
   pair_files [\<lparr>folder = ''A'', stem = ''diet'', extension = ''.xlsx''\<rparr>] [\<lparr>folder = ''B'', stem = ''tide'', extension = ''.xlsx''\<rparr>] (1 / 2) = Inr []"
  by code_simp

section \<open>Table comparison: properties\<close>

subsection \<open>Comparison by fingerprint\<close>

lemma filter_by_flags: "map snd (filter fst (zip (map p xs) xs)) = filter p xs"
  by (induction xs) auto

lemma getitem_mask_data:
  "data (getitem_mask df (map p (data df))) = filter p (data df)"
  by (cases "data df = []") (simp_all add: getitem_mask_def filter_by_flags)

lemma getitem_mask_columns:
  "data df \<noteq> [] \<Longrightarrow> columns (getitem_mask df (map p (data df))) = columns df"
  by (simp add: getitem_mask_def)

text \<open>
  Claim C3. For well-formed tables, when no key is detected in A, or the detected key is not a column of B, the
  added rows are exactly the rows of B whose fingerprint is not the fingerprint of any
  row of A, in B's row order and with all columns of B, and there are no modified rows.
\<close>

theorem hash_mode_added_rows:
  assumes wf: "wf_dataframe df_a" "wf_dataframe df_b"
    and no_key: "find_key_column df_a = None \<or> the (find_key_column df_a) \<notin> set (columns df_b)"
  shows "\<exists>added. compare_dataframes df_a df_b = Inr (added, empty_frame) \<and>
           records added =
             map (zip (columns df_b))
               (filter (\<lambda>r. row_hash r \<notin> set (map row_hash (data df_a))) (data df_b)) \<and>
           (data df_b \<noteq> [] \<longrightarrow> columns added = columns df_b)"
proof -
  let ?ha = "apply_row_hash df_a" and ?hb = "apply_row_hash df_b"
  let ?p = "\<lambda>r. row_hash r \<in> set ?hb - set ?ha"
  let ?added = "getitem_mask df_b (map ?p (data df_b))"
  have cmp: "compare_dataframes df_a df_b = Inr (?added, empty_frame)"
    using no_key by (auto simp: compare_dataframes_def Let_def apply_row_hash_def comp_def)
  have "filter ?p (data df_b) = filter (\<lambda>r. row_hash r \<notin> set (map row_hash (data df_a))) (data df_b)"
    by (rule filter_cong) (auto simp: apply_row_hash_def)
  then have d: "data ?added = filter (\<lambda>r. row_hash r \<notin> set (map row_hash (data df_a))) (data df_b)"
    by (simp only: getitem_mask_data)
  have c: "data df_b \<noteq> [] \<Longrightarrow> columns ?added = columns df_b"
    by (rule getitem_mask_columns)
  have "records ?added =
          map (zip (columns df_b))
            (filter (\<lambda>r. row_hash r \<notin> set (map row_hash (data df_a))) (data df_b))"
  proof (cases "data df_b = []")
    case True
    then show ?thesis using d by (simp add: records_def)
  next
    case False
    then show ?thesis using d c by (simp add: records_def)
  qed
  with cmp c show ?thesis by blast
qed

lemma row_hash_1_2: "row_hash [PyInt 1, PyInt 2] = ''b2595e9d5aa0b6f0be8f792ac7b8547a''"
  by code_simp
lemma row_hash_3_4: "row_hash [PyInt 3, PyInt 4] = ''b8f76eb41123080a1d71945d794893ba''"
  by code_simp

theorem hash_mode_added_rows_witness:
  "wf_dataframe \<lparr>columns = [''x'', ''y''], data = [[PyInt 1, PyInt 2], [PyInt 1, PyInt 2]]\<rparr> \<and>
   wf_dataframe \<lparr>columns = [''x'', ''y''], data = [[PyInt 1, PyInt 2], [PyInt 3, PyInt 4]]\<rparr> \<and>
   find_key_column \<lparr>columns = [''x'', ''y''], data = [[PyInt 1, PyInt 2], [PyInt 1, PyInt 2]]\<rparr> = None \<and>
   (\<exists>added. compare_dataframes
        \<lparr>columns = [''x'', ''y''], data = [[PyInt 1, PyInt 2], [PyInt 1, PyInt 2]]\<rparr>
        \<lparr>columns = [''x'', ''y''], data = [[PyInt 1, PyInt 2], [PyInt 3, PyInt 4]]\<rparr>
      = Inr (added, empty_frame) \<and>
      records added = [[(''x'', PyInt 3), (''y'', PyInt 4)]])"
proof -
  let ?A = "\<lparr>columns = [''x'', ''y''], data = [[PyInt 1, PyInt 2], [PyInt 1, PyInt 2]]\<rparr>"
  let ?B = "\<lparr>columns = [''x'', ''y''], data = [[PyInt 1, PyInt 2], [PyInt 3, PyInt 4]]\<rparr>"
  have w: "wf_dataframe ?A" "wf_dataframe ?B"
    by (simp_all add: wf_dataframe_def)
  have h: "find_key_column ?A = None"
    by (simp add: find_key_column_def candidates_def getitem_def is_unique_def)
  from hash_mode_added_rows [OF w disjI1, OF h] w h
  show ?thesis by (auto simp: row_hash_1_2 row_hash_3_4)
qed

subsection \<open>Labels and positions\<close>

lemma get_loc_less: "c \<in> set cs \<Longrightarrow> get_loc cs c < length cs"
  by (induction cs) auto

lemma get_loc_nth: "c \<in> set cs \<Longrightarrow> cs ! get_loc cs c = c"
  by (induction cs) auto

lemma set_delete_at:
  "distinct cs \<Longrightarrow> c \<in> set cs \<Longrightarrow> set (delete_at (get_loc cs c) cs) = set cs - {c}"
proof (induction cs)
  case Nil
  then show ?case by simp
next
  case (Cons x cs)
  show ?case
  proof (cases "x = c")
    case True
    with Cons.prems show ?thesis by (simp add: delete_at_def)
  next
    case False
    with Cons have "set (delete_at (get_loc cs c) cs) = set cs - {c}" by simp
    with False Cons.prems show ?thesis by (auto simp: delete_at_def)
  qed
qed

subsection \<open>Indexed frames\<close>

lemma set_index_Inr:
  assumes "key \<in> set (columns df)"
  shows "\<exists>idx. set_index df key = Inr idx \<and> index_name idx = key \<and>
           index_values idx = getitem df key \<and>
           columns (frame idx) = delete_at (get_loc (columns df) key) (columns df) \<and>
           labelled_rows idx =
             map (\<lambda>r. (r ! get_loc (columns df) key, delete_at (get_loc (columns df) key) r)) (data df) \<and>
           aligned idx"
  using assms
  by (simp add: set_index_def Let_def getitem_def labelled_rows_def aligned_def zip_map_map
                zip_same_conv_map)

lemma rows_at_nonempty:
  assumes "aligned idx"
  shows "rows_at idx k \<noteq> [] \<longleftrightarrow> k \<in> set (index_values idx)"
proof -
  from assms have "map fst (labelled_rows idx) = index_values idx"
    by (simp add: aligned_def labelled_rows_def)
  then have "set (index_values idx) = fst ` set (labelled_rows idx)"
    by (metis list.set_map)
  then show ?thesis
    by (force simp: rows_at_def filter_empty_conv)
qed

lemma zip_fst_snd: "zip (map fst xs) (map snd xs) = xs"
  by (induction xs) auto

lemma select_rows_Inr:
  assumes "set keys \<subseteq> set (index_values idx)" "index_name idx \<notin> set (columns (frame idx))"
  shows "select_rows idx keys =
           Inr (if keys = [] then empty_frame
                else \<lparr>columns = index_name idx # columns (frame idx),
                       data = map (\<lambda>(k, r). k # r) (concat (map (rows_at idx) keys))\<rparr>)"
proof (cases "keys = []")
  case True
  then show ?thesis by (simp add: select_rows_def)
next
  case False
  have "\<not> (\<exists>k\<in>set keys. k \<notin> set (index_values idx))" using assms(1) by auto
  then show ?thesis
    using False assms(2)
    by (simp add: select_rows_def loc_list_def Let_def reset_index_def labelled_rows_def
                  zip_fst_snd)
qed

lemma loc_Inr:
  assumes "aligned idx" "k \<in> set (index_values idx)"
  shows "\<exists>x. loc idx k = Inr x \<and> labels_of x = columns (frame idx)"
proof -
  from assms have "rows_at idx k \<noteq> []" by (simp add: rows_at_nonempty)
  then show ?thesis
    by (auto simp: loc_def split: list.splits)
qed

lemma modified_loop_Inr:
  assumes "aligned a" "aligned b" "set ks \<subseteq> set (index_values a) \<inter> set (index_values b)"
  shows "modified_loop a b ks acc = Inr (acc @ filter (row_changed a b) ks)"
  using assms(3)
proof (induction ks arbitrary: acc)
  case Nil
  then show ?case by simp
next
  case (Cons k ks)
  from Cons.prems obtain x y where xy: "loc a k = Inr x" "loc b k = Inr y"
    using loc_Inr[OF assms(1), of k] loc_Inr[OF assms(2), of k] by auto
  have IH: "modified_loop a b ks acc' = Inr (acc' @ filter (row_changed a b) ks)" for acc'
    using Cons.prems by (intro Cons.IH) simp
  have rc: "row_changed a b k \<longleftrightarrow> \<not> equals (fillna x) (fillna y)"
    using xy by (simp add: row_changed_def)
  show ?case
    using xy by (simp add: IH rc)
qed

lemma equals_labels: "equals x y \<Longrightarrow> labels_of x = labels_of y"
  by (cases x; cases y) simp_all

lemma fillna_labels: "labels_of (fillna x) = labels_of x"
  by (cases x) simp_all

lemma row_changed_mismatch:
  assumes "aligned a" "aligned b" "k \<in> set (index_values a)" "k \<in> set (index_values b)"
    and "columns (frame a) \<noteq> columns (frame b)"
  shows "row_changed a b k"
proof -
  from loc_Inr[OF assms(1,3)] obtain x where
    x: "loc a k = Inr x" "labels_of x = columns (frame a)" by blast
  from loc_Inr[OF assms(2,4)] obtain y where
    y: "loc b k = Inr y" "labels_of y = columns (frame b)" by blast
  have "\<not> equals (fillna x) (fillna y)"
    using equals_labels[of "fillna x" "fillna y"] x(2) y(2) assms(5)
    by (auto simp: fillna_labels)
  then show ?thesis using x(1) y(1) by (simp add: row_changed_def)
qed

subsection \<open>Set operations on index values\<close>

lemma unique_from_props:
  "set (unique_from seen xs) = set xs - set seen \<and> distinct (unique_from seen xs)"
  by (induction xs arbitrary: seen) auto

lemma set_unique [simp]: "set (unique xs) = set xs"
  by (simp add: unique_def unique_from_props)

lemma distinct_unique [simp]: "distinct (unique xs)"
  by (simp add: unique_def unique_from_props)

lemma set_safe_sort [simp]: "set (safe_sort xs) = set xs"
  by (simp add: safe_sort_def)

lemma distinct_safe_sort [simp]: "distinct (safe_sort xs) = distinct xs"
  by (simp add: safe_sort_def)

lemma sorted_safe_sort: "sorted (map sort_rank (safe_sort xs))"
  by (simp add: safe_sort_def)

lemma sort_rank_inj: "sort_rank x = sort_rank y \<longleftrightarrow> x = y"
  by (cases x; cases y) simp_all

lemma set_difference: "set (difference self other) = set self - set other"
  by (auto simp: difference_def)

lemma set_intersection: "set (intersection self other) = set self \<inter> set other"
  by (auto simp: intersection_def)

subsection \<open>Rows selected by a list of keys\<close>

lemma filter_key_concat:
  "distinct ks \<Longrightarrow>
   filter (\<lambda>r. f r = k0) (concat (map (\<lambda>k. filter (\<lambda>r. f r = k) xs) ks)) =
   (if k0 \<in> set ks then filter (\<lambda>r. f r = k0) xs else [])"
proof (induction ks)
  case Nil
  then show ?case by simp
next
  case (Cons k ks)
  have a: "filter (\<lambda>x. f x = k \<and> f x = k0) xs =
           (if k0 = k then filter (\<lambda>r. f r = k0) xs else [])"
    by (auto simp: filter_empty_conv intro: filter_cong)
  show ?case using Cons by (auto simp: a)
qed

lemma mset_concat_by_key:
  "distinct ks \<Longrightarrow>
   mset (concat (map (\<lambda>k. filter (\<lambda>r. f r = k) xs) ks)) = mset (filter (\<lambda>r. f r \<in> set ks) xs)"
proof (induction ks)
  case Nil
  then show ?case by simp
next
  case (Cons k ks)
  then have "mset (concat (map (\<lambda>k. filter (\<lambda>r. f r = k) xs) (k # ks))) =
             filter_mset (\<lambda>r. f r = k) (mset xs) + filter_mset (\<lambda>r. f r \<in> set ks) (mset xs)"
    by simp
  also have "\<dots> = filter_mset (\<lambda>r. f r \<in> set (k # ks)) (mset xs)"
    using Cons.prems by (auto simp: multiset_eq_iff)
  finally show ?case by simp
qed

lemma sorted_concat_by_key:
  "sorted (map g ks) \<Longrightarrow>
   sorted (map (\<lambda>r. g (f r)) (concat (map (\<lambda>k. filter (\<lambda>r. f r = k) xs) ks)))"
proof (induction ks)
  case Nil
  then show ?case by simp
next
  case (Cons k ks)
  have blk: "sorted (map (\<lambda>r. g (f r)) (filter (\<lambda>r. f r = k) xs))"
  proof -
    have "map (\<lambda>r. g (f r)) (filter (\<lambda>r. f r = k) xs) =
          replicate (length (filter (\<lambda>r. f r = k) xs)) (g k)"
      by (induction xs) auto
    then show ?thesis by (simp add: sorted_replicate)
  qed
  from Cons show ?case
    by (auto simp: sorted_append blk)
qed

lemma rows_sorted_by_key:
  fixes f :: "'a \<Rightarrow> cell"
  assumes "distinct ks" "sorted (map sort_rank ks)"
    and "\<And>r. r \<in> set xs \<Longrightarrow> f r \<in> set ks \<longleftrightarrow> P (f r)"
  shows "concat (map (\<lambda>k. filter (\<lambda>r. f r = k) xs) ks) =
         sort_key (\<lambda>r. sort_rank (f r)) (filter (\<lambda>r. P (f r)) xs)"
proof (rule properties_for_sort_key [symmetric])
  let ?ys = "concat (map (\<lambda>k. filter (\<lambda>r. f r = k) xs) ks)"
  have sel: "filter (\<lambda>r. f r \<in> set ks) xs = filter (\<lambda>r. P (f r)) xs"
    by (rule filter_cong) (simp_all add: assms(3))
  show "mset ?ys = mset (filter (\<lambda>r. P (f r)) xs)"
    using mset_concat_by_key[OF assms(1), of f xs] sel by simp
  show "sorted (map (\<lambda>r. sort_rank (f r)) ?ys)"
    using assms(2) by (rule sorted_concat_by_key)
  fix r assume r: "r \<in> set ?ys"
  then have rk: "f r \<in> set ks" "r \<in> set xs" by auto
  have "filter (\<lambda>x. sort_rank (f r) = sort_rank (f x)) ?ys = filter (\<lambda>x. f x = f r) ?ys"
    by (rule filter_cong) (auto simp: sort_rank_inj)
  also have "\<dots> = filter (\<lambda>x. f x = f r) xs"
    using rk(1) by (simp add: filter_key_concat[OF assms(1)])
  also have "\<dots> = filter (\<lambda>x. f x = f r) (filter (\<lambda>r. P (f r)) xs)"
    using rk assms(3)[of r] by (auto intro: filter_cong)
  also have "\<dots> = filter (\<lambda>x. sort_rank (f r) = sort_rank (f x)) (filter (\<lambda>r. P (f r)) xs)"
    by (rule filter_cong) (auto simp: sort_rank_inj)
  finally show "filter (\<lambda>x. sort_rank (f r) = sort_rank (f x)) ?ys =
                filter (\<lambda>x. sort_rank (f r) = sort_rank (f x)) (filter (\<lambda>r. P (f r)) xs)" .
qed

lemma rows_at_set_index:
  assumes "labelled_rows idx = map (\<lambda>r. (r ! i, delete_at i r)) rows"
  shows "map (\<lambda>(k, r). k # r) (concat (map (rows_at idx) keys)) =
         map (move_key_first i) (rows_with_keys i rows keys)"
proof -
  have "map (\<lambda>(k, r). k # r) (rows_at idx k) = map (move_key_first i) (filter (\<lambda>r. r ! i = k) rows)"
    for k
    unfolding rows_at_def assms
    by (induction rows) (auto simp: move_key_first_def)
  then show ?thesis
    by (simp add: rows_with_keys_def map_concat comp_def)
qed

lemma key_mode_result:
  assumes "find_key_column df_a = Some key" "key \<noteq> ''''" "key \<in> set (columns df_b)"
    and "distinct (columns df_b)"
  shows "\<exists>a_idx b_idx.
           set_index df_a key = Inr a_idx \<and> set_index df_b key = Inr b_idx \<and>
           compare_dataframes df_a df_b =
             Inr (selected df_b key (difference (getitem df_b key) (getitem df_a key)),
                  selected df_b key
                    (filter (row_changed a_idx b_idx)
                       (intersection (getitem df_a key) (getitem df_b key))))"
proof -
  let ?i = "get_loc (columns df_b) key"
  have ka: "key \<in> set (columns df_a)" using assms(1) by (rule find_key_column_in)
  from set_index_Inr[OF ka] obtain a_idx where a:
    "set_index df_a key = Inr a_idx" "index_values a_idx = getitem df_a key" "aligned a_idx"
    by blast
  from set_index_Inr[OF assms(3)] obtain b_idx where b:
    "set_index df_b key = Inr b_idx" "index_name b_idx = key"
    "index_values b_idx = getitem df_b key"
    "columns (frame b_idx) = delete_at ?i (columns df_b)"
    "labelled_rows b_idx = map (\<lambda>r. (r ! ?i, delete_at ?i r)) (data df_b)"
    "aligned b_idx"
    by blast
  have fresh: "index_name b_idx \<notin> set (columns (frame b_idx))"
    using set_delete_at[OF assms(4,3)] b(2,4) by simp
  have sel: "select_rows b_idx keys = Inr (selected df_b key keys)"
    if "set keys \<subseteq> set (getitem df_b key)" for keys
  proof -
    have "select_rows b_idx keys =
           Inr (if keys = [] then empty_frame
                else \<lparr>columns = index_name b_idx # columns (frame b_idx),
                       data = map (\<lambda>(k, r). k # r) (concat (map (rows_at b_idx) keys))\<rparr>)"
      using that fresh by (intro select_rows_Inr) (simp_all add: b(3))
    then show ?thesis
      using get_loc_nth[OF assms(3)]
      by (simp add: selected_def Let_def rows_at_set_index[OF b(5)] b(2,4) move_key_first_def)
  qed
  let ?added_keys = "difference (getitem df_b key) (getitem df_a key)"
  let ?common = "intersection (getitem df_a key) (getitem df_b key)"
  have ml: "modified_loop a_idx b_idx ?common [] = Inr (filter (row_changed a_idx b_idx) ?common)"
    using modified_loop_Inr[OF a(3) b(6), of ?common "[]"]
    by (simp add: a(2) b(3) set_intersection)
  have s1: "select_rows b_idx ?added_keys = Inr (selected df_b key ?added_keys)"
    by (rule sel) (auto simp: set_difference)
  have s2: "select_rows b_idx (filter (row_changed a_idx b_idx) ?common) =
            Inr (selected df_b key (filter (row_changed a_idx b_idx) ?common))"
    by (rule sel) (auto simp: set_intersection)
  have "compare_dataframes df_a df_b =
          Inr (selected df_b key ?added_keys,
               selected df_b key (filter (row_changed a_idx b_idx) ?common))"
    using assms(1-3) a(1,2) b(1,3) ml s1 s2
    by (simp add: compare_dataframes_def Let_def)
  with a(1) b(1) show ?thesis by blast
qed

lemma records_selected:
  "records (selected df key keys) =
   map (\<lambda>r. zip (move_key_first (get_loc (columns df) key) (columns df))
                 (move_key_first (get_loc (columns df) key) r))
       (rows_with_keys (get_loc (columns df) key) (data df) keys)"
  by (simp add: selected_def records_def Let_def empty_frame_def rows_with_keys_def)

lemma getitem_empty: "getitem df key = [] \<longleftrightarrow> data df = []"
  by (simp add: getitem_def)

lemma added_rows_sorted:
  assumes "other \<noteq> []"
  shows "rows_with_keys i rows (difference (map (\<lambda>r. r ! i) rows) other) =
         sort_key (\<lambda>r. sort_rank (r ! i)) (filter (\<lambda>r. r ! i \<notin> set other) rows)"
proof -
  let ?ks = "safe_sort (unique (filter (\<lambda>k. k \<notin> set other) (map (\<lambda>r. r ! i) rows)))"
  have "concat (map (\<lambda>k. filter (\<lambda>r. r ! i = k) rows) ?ks) =
        sort_key (\<lambda>r. sort_rank (r ! i)) (filter (\<lambda>r. r ! i \<notin> set other) rows)"
    by (rule rows_sorted_by_key) (auto simp: sorted_safe_sort)
  then show ?thesis using assms by (simp add: rows_with_keys_def difference_def)
qed

text \<open>
  Claim C1, as amended. For well-formed tables, when key detection on A returns a key with a non-empty name that
  is also a column of B, the added rows are exactly the rows of B whose key value is not
  among A's key values, each with the key column first and B's remaining columns in
  their order. If A has at least one row they are listed in ascending order of the key
  value (integers, then strings, then missing values), rows with the same key in B's
  row order; if A has no row they are listed key by key in the order in which the keys
  first occur in B. For the tables of the end-to-end scenario the added rows are
  \<open>[{id: 3, name: Maria}]\<close>.
\<close>

theorem key_mode_added_rows:
  assumes wf: "wf_dataframe df_a" "wf_dataframe df_b"
    and key: "find_key_column df_a = Some key" "key \<noteq> ''''" "key \<in> set (columns df_b)"
  shows "\<exists>added modified.
           compare_dataframes df_a df_b = Inr (added, modified) \<and>
           records added =
             map (\<lambda>r. zip (move_key_first (get_loc (columns df_b) key) (columns df_b))
                           (move_key_first (get_loc (columns df_b) key) r))
               (if data df_a = []
                then rows_with_keys (get_loc (columns df_b) key) (data df_b)
                       (unique (getitem df_b key))
                else sort_key (\<lambda>r. sort_rank (r ! get_loc (columns df_b) key))
                       (filter (\<lambda>r. r ! get_loc (columns df_b) key \<notin> set (getitem df_a key))
                          (data df_b)))"
proof -
  let ?i = "get_loc (columns df_b) key"
  have db: "distinct (columns df_b)" using wf(2) by (simp add: wf_dataframe_def)
  from key_mode_result[OF key db] obtain modified where
    cmp: "compare_dataframes df_a df_b =
            Inr (selected df_b key (difference (getitem df_b key) (getitem df_a key)), modified)"
    by blast
  have "rows_with_keys ?i (data df_b) (difference (getitem df_b key) (getitem df_a key)) =
        (if data df_a = []
         then rows_with_keys ?i (data df_b) (unique (getitem df_b key))
         else sort_key (\<lambda>r. sort_rank (r ! ?i))
                (filter (\<lambda>r. r ! ?i \<notin> set (getitem df_a key)) (data df_b)))"
  proof (cases "data df_a = []")
    case True
    then have "getitem df_a key = []" by (simp add: getitem_empty)
    with True show ?thesis by (simp add: difference_def)
  next
    case False
    then have "getitem df_a key \<noteq> []" by (simp add: getitem_empty)
    from added_rows_sorted[OF this, of ?i "data df_b"] False
    show ?thesis by (simp add: getitem_def)
  qed
  then show ?thesis using cmp by (simp add: records_selected)
qed

text \<open>
  Claim C8. For well-formed tables, in key mode with mismatched column sets the comparison raises no exception,
  and every key present in both tables is reported as modified: the modified rows are
  the rows of B for the common keys, in the order of A's distinct key values.
\<close>

theorem mismatched_columns_are_modified:
  assumes wf: "wf_dataframe df_a" "wf_dataframe df_b"
    and key: "find_key_column df_a = Some key" "key \<noteq> ''''" "key \<in> set (columns df_b)"
    and mismatch: "set (columns df_a) \<noteq> set (columns df_b)"
  shows "\<exists>added modified.
           compare_dataframes df_a df_b = Inr (added, modified) \<and>
           records modified =
             map (\<lambda>r. zip (move_key_first (get_loc (columns df_b) key) (columns df_b))
                           (move_key_first (get_loc (columns df_b) key) r))
               (rows_with_keys (get_loc (columns df_b) key) (data df_b)
                  (intersection (getitem df_a key) (getitem df_b key))) \<and>
           (\<forall>k. k \<in> set (getitem df_a key) \<and> k \<in> set (getitem df_b key) \<longrightarrow>
                k \<in> set (getitem modified key))"
proof -
  let ?i = "get_loc (columns df_b) key"
  let ?common = "intersection (getitem df_a key) (getitem df_b key)"
  have da: "distinct (columns df_a)" and db: "distinct (columns df_b)"
    using wf by (simp_all add: wf_dataframe_def)
  have ka: "key \<in> set (columns df_a)" using key(1) by (rule find_key_column_in)
  from key_mode_result[OF key db] obtain a_idx b_idx where
    si: "set_index df_a key = Inr a_idx" "set_index df_b key = Inr b_idx" and
    cmp: "compare_dataframes df_a df_b =
            Inr (selected df_b key (difference (getitem df_b key) (getitem df_a key)),
                 selected df_b key (filter (row_changed a_idx b_idx) ?common))"
    by blast
  from set_index_Inr[OF ka] si(1) have a:
    "index_values a_idx = getitem df_a key" "aligned a_idx"
    "columns (frame a_idx) = delete_at (get_loc (columns df_a) key) (columns df_a)" by auto
  from set_index_Inr[OF key(3)] si(2) have b:
    "index_values b_idx = getitem df_b key" "aligned b_idx"
    "columns (frame b_idx) = delete_at ?i (columns df_b)" by auto
  have "set (columns (frame a_idx)) \<noteq> set (columns (frame b_idx))"
    using set_delete_at[OF da ka] set_delete_at[OF db key(3)] a(3) b(3) key(3) mismatch ka
    by auto
  then have ne: "columns (frame a_idx) \<noteq> columns (frame b_idx)" by auto
  have "filter (row_changed a_idx b_idx) ?common = ?common"
    unfolding filter_id_conv
    using row_changed_mismatch[OF a(2) b(2) _ _ ne] by (auto simp: set_intersection a(1) b(1))
  with cmp have cmp': "compare_dataframes df_a df_b =
            Inr (selected df_b key (difference (getitem df_b key) (getitem df_a key)),
                 selected df_b key ?common)" by simp
  have "k \<in> set (getitem (selected df_b key ?common) key)"
    if k: "k \<in> set (getitem df_a key)" "k \<in> set (getitem df_b key)" for k
  proof -
    from k have kc: "k \<in> set ?common" by (simp add: set_intersection)
    then have ne: "?common \<noteq> []" by auto
    from k(2) obtain r where r: "r \<in> set (data df_b)" "r ! ?i = k"
      by (auto simp: getitem_def)
    then have "r \<in> set (rows_with_keys ?i (data df_b) ?common)"
      using kc by (auto simp: rows_with_keys_def)
    then have "move_key_first ?i r \<in> set (data (selected df_b key ?common))"
      using ne by (simp add: selected_def Let_def)
    moreover have "get_loc (columns (selected df_b key ?common)) key = 0"
      using ne get_loc_nth[OF key(3)] by (simp add: selected_def Let_def move_key_first_def)
    ultimately show ?thesis
      using r(2) by (force simp: getitem_def move_key_first_def)
  qed
  with cmp' show ?thesis by (simp add: records_selected)
qed

text \<open>
  Claim C1 as stated fails: with A = \<open>[{id: 1, name: Ana}]\<close> and B =
  \<open>[{id: 3, name: Maria}, {id: 2, name: Luisa}]\<close> both rows of B are added, but in the
  order 2, 3 of their keys and not in B's row order 3, 2.
\<close>

theorem added_rows_not_in_row_order_of_B:
  "find_key_column \<lparr>columns = [''id'', ''name''], data = [[PyInt 1, PyStr ''Ana'']]\<rparr> = Some ''id'' \<and>
   ''id'' \<in> set (columns \<lparr>columns = [''id'', ''name''], data = [[PyInt 3, PyStr ''Maria''], [PyInt 2, PyStr ''Luisa'']]\<rparr>) \<and>
   getitem \<lparr>columns = [''id'', ''name''], data = [[PyInt 1, PyStr ''Ana'']]\<rparr> ''id'' = [PyInt 1] \<and>
   compare_dataframes
     \<lparr>columns = [''id'', ''name''], data = [[PyInt 1, PyStr ''Ana'']]\<rparr>
     \<lparr>columns = [''id'', ''name''], data = [[PyInt 3, PyStr ''Maria''], [PyInt 2, PyStr ''Luisa'']]\<rparr>
   = Inr (\<lparr>columns = [''id'', ''name''], data = [[PyInt 2, PyStr ''Luisa''], [PyInt 3, PyStr ''Maria'']]\<rparr>,
          empty_frame)"
  by code_simp

theorem key_mode_added_rows_witness:
  "wf_dataframe \<lparr>columns = [''id'', ''name''],
        data = [[PyInt 1, PyStr ''Ana''], [PyInt 2, PyStr ''Luis'']]\<rparr> \<and>
   wf_dataframe \<lparr>columns = [''id'', ''name''],
        data = [[PyInt 1, PyStr ''Ana''], [PyInt 2, PyStr ''Luisa''], [PyInt 3, PyStr ''Maria'']]\<rparr> \<and>
   find_key_column \<lparr>columns = [''id'', ''name''],
        data = [[PyInt 1, PyStr ''Ana''], [PyInt 2, PyStr ''Luis'']]\<rparr> = Some ''id'' \<and>
   ''id'' \<noteq> '''' \<and>
   ''id'' \<in> set (columns \<lparr>columns = [''id'', ''name''],
        data = [[PyInt 1, PyStr ''Ana''], [PyInt 2, PyStr ''Luisa''], [PyInt 3, PyStr ''Maria'']]\<rparr>) \<and>
   (\<exists>added modified.
      compare_dataframes
        \<lparr>columns = [''id'', ''name''],
           data = [[PyInt 1, PyStr ''Ana''], [PyInt 2, PyStr ''Luis'']]\<rparr>
        \<lparr>columns = [''id'', ''name''],
           data = [[PyInt 1, PyStr ''Ana''], [PyInt 2, PyStr ''Luisa''], [PyInt 3, PyStr ''Maria'']]\<rparr>
      = Inr (added, modified) \<and>
      records added = [[(''id'', PyInt 3), (''name'', PyStr ''Maria'')]])"
proof -
  let ?A = "\<lparr>columns = [''id'', ''name''],
        data = [[PyInt 1, PyStr ''Ana''], [PyInt 2, PyStr ''Luis'']]\<rparr>"
  let ?B = "\<lparr>columns = [''id'', ''name''],
        data = [[PyInt 1, PyStr ''Ana''], [PyInt 2, PyStr ''Luisa''], [PyInt 3, PyStr ''Maria'']]\<rparr>"
  have w: "wf_dataframe ?A" "wf_dataframe ?B"
    by (simp_all add: wf_dataframe_def)
  have h1: "find_key_column ?A = Some ''id''" by code_simp
  have h2: "''id'' \<noteq> ''''" by simp
  have h3: "''id'' \<in> set (columns ?B)" by simp
  have e: "map (\<lambda>r. zip (move_key_first (get_loc (columns ?B) ''id'') (columns ?B))
                           (move_key_first (get_loc (columns ?B) ''id'') r))
               (if data ?A = []
                then rows_with_keys (get_loc (columns ?B) ''id'') (data ?B)
                       (unique (getitem ?B ''id''))
                else sort_key (\<lambda>r. sort_rank (r ! get_loc (columns ?B) ''id''))
                       (filter (\<lambda>r. r ! get_loc (columns ?B) ''id'' \<notin> set (getitem ?A ''id''))
                          (data ?B)))
           = [[(''id'', PyInt 3), (''name'', PyStr ''Maria'')]]"
    by code_simp
  from key_mode_added_rows [OF w h1 h2 h3]
  obtain added modified where
    c: "compare_dataframes ?A ?B = Inr (added, modified)" and
    r: "records added =
          map (\<lambda>r. zip (move_key_first (get_loc (columns ?B) ''id'') (columns ?B))
                        (move_key_first (get_loc (columns ?B) ''id'') r))
            (if data ?A = []
             then rows_with_keys (get_loc (columns ?B) ''id'') (data ?B)
                    (unique (getitem ?B ''id''))
             else sort_key (\<lambda>r. sort_rank (r ! get_loc (columns ?B) ''id''))
                    (filter (\<lambda>r. r ! get_loc (columns ?B) ''id'' \<notin> set (getitem ?A ''id''))
                       (data ?B)))"
    by (elim exE conjE)
  from r have "records added = [[(''id'', PyInt 3), (''name'', PyStr ''Maria'')]]"
    unfolding e .
  with c have "\<exists>added modified. compare_dataframes ?A ?B = Inr (added, modified) \<and>
      records added = [[(''id'', PyInt 3), (''name'', PyStr ''Maria'')]]"
    by (intro exI conjI)
  with w h1 h2 h3 show ?thesis by (intro conjI)
qed

theorem mismatched_columns_are_modified_witness:
  "wf_dataframe \<lparr>columns = [''id'', ''x''], data = [[PyInt 1, PyInt 5]]\<rparr> \<and>
   wf_dataframe \<lparr>columns = [''id'', ''y''], data = [[PyInt 1, PyInt 5], [PyInt 2, PyInt 6]]\<rparr> \<and>
   find_key_column \<lparr>columns = [''id'', ''x''], data = [[PyInt 1, PyInt 5]]\<rparr> = Some ''id'' \<and>
   ''id'' \<noteq> '''' \<and>
   ''id'' \<in> set (columns \<lparr>columns = [''id'', ''y''],
                              data = [[PyInt 1, PyInt 5], [PyInt 2, PyInt 6]]\<rparr>) \<and>
   set (columns \<lparr>columns = [''id'', ''x''], data = [[PyInt 1, PyInt 5]]\<rparr>) \<noteq>
   set (columns \<lparr>columns = [''id'', ''y''], data = [[PyInt 1, PyInt 5], [PyInt 2, PyInt 6]]\<rparr>) \<and>
   (\<exists>added modified.
      compare_dataframes
        \<lparr>columns = [''id'', ''x''], data = [[PyInt 1, PyInt 5]]\<rparr>
        \<lparr>columns = [''id'', ''y''], data = [[PyInt 1, PyInt 5], [PyInt 2, PyInt 6]]\<rparr>
      = Inr (added, modified) \<and>
      records modified = [[(''id'', PyInt 1), (''y'', PyInt 5)]])"
proof -
  let ?A = "\<lparr>columns = [''id'', ''x''], data = [[PyInt 1, PyInt 5]]\<rparr>"
  let ?B = "\<lparr>columns = [''id'', ''y''], data = [[PyInt 1, PyInt 5], [PyInt 2, PyInt 6]]\<rparr>"
  have w: "wf_dataframe ?A" "wf_dataframe ?B"
    by (simp_all add: wf_dataframe_def)
  have h1: "find_key_column ?A = Some ''id''" by code_simp
  have h2: "''id'' \<noteq> ''''" by simp
  have h3: "''id'' \<in> set (columns ?B)" by simp
  have h6: "set (columns ?A) \<noteq> set (columns ?B)" by code_simp
  have e: "map (\<lambda>r. zip (move_key_first (get_loc (columns ?B) ''id'') (columns ?B))
                           (move_key_first (get_loc (columns ?B) ''id'') r))
               (rows_with_keys (get_loc (columns ?B) ''id'') (data ?B)
                  (intersection (getitem ?A ''id'') (getitem ?B ''id'')))
           = [[(''id'', PyInt 1), (''y'', PyInt 5)]]"
    by code_simp
  from mismatched_columns_are_modified [OF w h1 h2 h3 h6]
  obtain added modified where
    c: "compare_dataframes ?A ?B = Inr (added, modified)" and
    r: "records modified =
          map (\<lambda>r. zip (move_key_first (get_loc (columns ?B) ''id'') (columns ?B))
                        (move_key_first (get_loc (columns ?B) ''id'') r))
            (rows_with_keys (get_loc (columns ?B) ''id'') (data ?B)
               (intersection (getitem ?A ''id'') (getitem ?B ''id'')))"
    by (elim exE conjE)
  from r have "records modified = [[(''id'', PyInt 1), (''y'', PyInt 5)]]"
    unfolding e .
  with c have "\<exists>added modified. compare_dataframes ?A ?B = Inr (added, modified) \<and>
      records modified = [[(''id'', PyInt 1), (''y'', PyInt 5)]]"
    by (intro exI conjI)
  with w h1 h2 h3 h6 show ?thesis by (intro conjI)
qed

text \<open>
  What holds of the modified rows in key mode: they are the rows of B, key column first,
  for the common keys whose two lookups compare unequal, in the order of A's distinct key
  values. For a key that labels exactly one row in each table the lookups compare
  unequal when the lists of the other column labels differ, or when some value differs
  after missing values are replaced by the empty string.
\<close>

lemma key_mode_modified_rows:
  assumes "find_key_column df_a = Some key" "key \<noteq> ''''" "key \<in> set (columns df_b)"
    and "distinct (columns df_b)"
  shows "\<exists>a_idx b_idx added modified.
           set_index df_a key = Inr a_idx \<and> set_index df_b key = Inr b_idx \<and>
           compare_dataframes df_a df_b = Inr (added, modified) \<and>
           records modified =
             map (\<lambda>r. zip (move_key_first (get_loc (columns df_b) key) (columns df_b))
                           (move_key_first (get_loc (columns df_b) key) r))
               (rows_with_keys (get_loc (columns df_b) key) (data df_b)
                  (filter (row_changed a_idx b_idx)
                     (intersection (getitem df_a key) (getitem df_b key))))"
  using key_mode_result[OF assms] by (auto simp: records_selected)

lemma row_changed_single_rows:
  assumes "rows_at a_idx k = [(k, row_a)]" "rows_at b_idx k = [(k, row_b)]"
  shows "row_changed a_idx b_idx k \<longleftrightarrow>
           columns (frame a_idx) \<noteq> columns (frame b_idx) \<or>
           map fill_cell row_a \<noteq> map fill_cell row_b"
  using assms by (simp add: row_changed_def loc_def)

text \<open>
  Claim C2. With A = \<open>[{id: 1, x: 5, y: 5}]\<close> and B = \<open>[{id: 1, y: 5, x: 5}]\<close>,
  the same columns in another order, the rows for key 1 agree in every column, yet key 1
  is reported as modified, because \<open>equals\<close> compares the column labels of the two
  rows in their order.
\<close>

theorem equal_rows_reported_as_modified:
  "getitem \<lparr>columns = [''id'', ''x'', ''y''], data = [[PyInt 1, PyInt 5, PyInt 5]]\<rparr> ''id''
     = [PyInt 1] \<and>
   getitem \<lparr>columns = [''id'', ''x'', ''y''], data = [[PyInt 1, PyInt 5, PyInt 5]]\<rparr> ''x''
     = [PyInt 5] \<and>
   getitem \<lparr>columns = [''id'', ''x'', ''y''], data = [[PyInt 1, PyInt 5, PyInt 5]]\<rparr> ''y''
     = [PyInt 5] \<and>
   getitem \<lparr>columns = [''id'', ''y'', ''x''], data = [[PyInt 1, PyInt 5, PyInt 5]]\<rparr> ''id''
     = [PyInt 1] \<and>
   getitem \<lparr>columns = [''id'', ''y'', ''x''], data = [[PyInt 1, PyInt 5, PyInt 5]]\<rparr> ''x''
     = [PyInt 5] \<and>
   getitem \<lparr>columns = [''id'', ''y'', ''x''], data = [[PyInt 1, PyInt 5, PyInt 5]]\<rparr> ''y''
     = [PyInt 5] \<and>
   compare_dataframes
     \<lparr>columns = [''id'', ''x'', ''y''], data = [[PyInt 1, PyInt 5, PyInt 5]]\<rparr>
     \<lparr>columns = [''id'', ''y'', ''x''], data = [[PyInt 1, PyInt 5, PyInt 5]]\<rparr>
   = Inr (empty_frame,
          \<lparr>columns = [''id'', ''y'', ''x''], data = [[PyInt 1, PyInt 5, PyInt 5]]\<rparr>)"
  by code_simp


end
